theory Spec2Isabelle
  imports Main "HOL-Library.AList"
begin

section \<open>Arrays, images and pixels\<close>

text \<open>
  A pixel is the pair \<open>(x, y)\<close> of Python ints the source stores in its pixel lists.
  A colour is the \<open>(R, G, B)\<close> triple of a \<open>QColor\<close>.
\<close>

type_synonym pixel = "int \<times> int"
type_synonym colour = "int \<times> int \<times> int"

text \<open>
  A two-dimensional NumPy array (and likewise a \<open>QImage\<close>) is its shape together with
  its cells. The source indexes arrays as \<open>a[y, x]\<close>; the model addresses the same cell
  as \<open>cell a (x, y)\<close>. Every read and write of the model sits behind the bounds test the
  source makes before it, so NumPy's wrap-around of negative indices never comes into play.
\<close>

record 'a array2d =
  rows :: int
  cols :: int
  cell :: "pixel \<Rightarrow> 'a"

definition zeros :: "int \<Rightarrow> int \<Rightarrow> 'a \<Rightarrow> 'a array2d" where
  "zeros h w z = \<lparr>rows = h, cols = w, cell = (\<lambda>_. z)\<rparr>"

definition inside :: "'a array2d \<Rightarrow> pixel \<Rightarrow> bool" where
  "inside a p \<longleftrightarrow> 0 \<le> fst p \<and> fst p < cols a \<and> 0 \<le> snd p \<and> snd p < rows a"

definition put :: "'a array2d \<Rightarrow> pixel \<Rightarrow> 'a \<Rightarrow> 'a array2d" where
  "put a p v = a\<lparr>cell := (cell a)(p := v)\<rparr>"

section \<open>Flood fill\<close>

text \<open>
  \<open>_numpy_flood_fill\<close>: the explicit stack, the visited bitmap and the list of filled
  pixels. The Python list \<open>stack\<close> is kept with its last element (the one \<open>pop()\<close>
  takes) at the head of the model's list; \<open>filled_pixels\<close> is in the source's order.
\<close>

definition neighbors :: "pixel \<Rightarrow> pixel list" where
  "neighbors p = [(fst p + 1, snd p), (fst p - 1, snd p), (fst p, snd p + 1), (fst p, snd p - 1)]"

fun push_neighbors :: "bool array2d \<Rightarrow> bool array2d \<Rightarrow> pixel list \<Rightarrow> pixel list \<Rightarrow> pixel list" where
  "push_neighbors target_mask visited [] stack = stack"
| "push_neighbors target_mask visited ((nx, ny) # ns) stack =
     push_neighbors target_mask visited ns
       (if 0 \<le> nx \<and> nx < cols target_mask \<and> 0 \<le> ny \<and> ny < rows target_mask
           \<and> \<not> cell visited (nx, ny) \<and> cell target_mask (nx, ny)
        then (nx, ny) # stack else stack)"

definition unvisited :: "bool array2d \<Rightarrow> bool array2d \<Rightarrow> pixel set" where
  "unvisited target_mask visited =
     {p. inside target_mask p \<and> cell target_mask p \<and> \<not> cell visited p}"

function numpy_flood_loop ::
  "bool array2d \<Rightarrow> pixel list \<Rightarrow> bool array2d \<Rightarrow> pixel list \<Rightarrow> pixel list" where
  "numpy_flood_loop target_mask [] visited filled_pixels = filled_pixels"
| "numpy_flood_loop target_mask ((x, y) # stack) visited filled_pixels =
     (if x < 0 \<or> x \<ge> cols target_mask \<or> y < 0 \<or> y \<ge> rows target_mask
      then numpy_flood_loop target_mask stack visited filled_pixels
      else if cell visited (x, y) \<or> \<not> cell target_mask (x, y)
      then numpy_flood_loop target_mask stack visited filled_pixels
      else numpy_flood_loop target_mask
             (push_neighbors target_mask (put visited (x, y) True) (neighbors (x, y)) stack)
             (put visited (x, y) True)
             (filled_pixels @ [(x, y)]))"
  by pat_completeness auto

lemma length_push_neighbors:
  "length (push_neighbors tm vis ns st) \<le> length st + length ns"
  by (induction tm vis ns st rule: push_neighbors.induct) auto

lemma finite_inside: "finite {p. inside a p}"
proof -
  have "{p. inside a p} \<subseteq> {0..<cols a} \<times> {0..<rows a}"
    by (auto simp: inside_def)
  then show ?thesis
    by (rule finite_subset) simp
qed

lemma finite_unvisited: "finite (unvisited tm vis)"
  by (rule finite_subset[OF _ finite_inside[of tm]]) (auto simp: unvisited_def)

lemma unvisited_put:
  "unvisited tm (put vis p True) = unvisited tm vis - {p}"
  by (auto simp: unvisited_def put_def)

lemma card_unvisited_put:
  assumes "inside tm p" "cell tm p" "\<not> cell vis p"
  shows "card (unvisited tm (put vis p True)) < card (unvisited tm vis)"
proof -
  have "p \<in> unvisited tm vis"
    using assms by (simp add: unvisited_def)
  then show ?thesis
    unfolding unvisited_put
    by (intro card_Diff1_less finite_unvisited)
qed

termination numpy_flood_loop
proof (relation "measure (\<lambda>(tm, st, vis, fp). 4 * card (unvisited tm vis) + length st)")
  show "wf (measure (\<lambda>(tm, st, vis, fp). 4 * card (unvisited tm vis) + length st))"
    by simp
next
  fix tm :: "bool array2d" and x y :: int and st :: "pixel list" and vis :: "bool array2d"
    and fp :: "pixel list"
  assume "\<not> (x < 0 \<or> cols tm \<le> x \<or> y < 0 \<or> rows tm \<le> y)"
    and "\<not> (cell vis (x, y) \<or> \<not> cell tm (x, y))"
  then have "card (unvisited tm (put vis (x, y) True)) < card (unvisited tm vis)"
    by (intro card_unvisited_put) (auto simp: inside_def)
  moreover have "length (push_neighbors tm (put vis (x, y) True) (neighbors (x, y)) st)
      \<le> length st + 4"
    using length_push_neighbors[of tm "put vis (x, y) True" "neighbors (x, y)" st]
    by (simp add: neighbors_def)
  ultimately show "((tm, push_neighbors tm (put vis (x, y) True) (neighbors (x, y)) st,
        put vis (x, y) True, fp @ [(x, y)]), tm, (x, y) # st, vis, fp)
      \<in> measure (\<lambda>(tm, st, vis, fp). 4 * card (unvisited tm vis) + length st)"
    by simp
qed auto


definition zeros_like :: "bool array2d \<Rightarrow> bool array2d" where
  "zeros_like a = zeros (rows a) (cols a) False"

definition numpy_flood_fill :: "int \<Rightarrow> int \<Rightarrow> bool array2d \<Rightarrow> pixel list" where
  "numpy_flood_fill start_x start_y target_mask =
     numpy_flood_loop target_mask [(start_x, start_y)] (zeros_like target_mask) []"

text \<open>
  The same \<open>while stack:\<close> loop with no termination argument built in: a run that never
  left the loop would be the value \<open>None\<close>.
\<close>

partial_function (option) flood_while ::
  "bool array2d \<Rightarrow> pixel list \<Rightarrow> bool array2d \<Rightarrow> pixel list \<Rightarrow> pixel list option" where
  "flood_while target_mask stack visited filled_pixels =
     (case stack of
        [] \<Rightarrow> Some filled_pixels
      | (x, y) # rest \<Rightarrow>
          if x < 0 \<or> x \<ge> cols target_mask \<or> y < 0 \<or> y \<ge> rows target_mask
          then flood_while target_mask rest visited filled_pixels
          else if cell visited (x, y) \<or> \<not> cell target_mask (x, y)
          then flood_while target_mask rest visited filled_pixels
          else flood_while target_mask
                 (push_neighbors target_mask (put visited (x, y) True) (neighbors (x, y)) rest)
                 (put visited (x, y) True)
                 (filled_pixels @ [(x, y)]))"

text \<open>
  The 4-connected component of the seed among the in-bounds cells the target mask marks:
  the set the flood fill is meant to return.
\<close>

inductive_set component :: "bool array2d \<Rightarrow> pixel \<Rightarrow> pixel set"
  for target_mask :: "bool array2d" and seed :: pixel where
  seed: "inside target_mask seed \<Longrightarrow> cell target_mask seed \<Longrightarrow> seed \<in> component target_mask seed"
| step: "p \<in> component target_mask seed \<Longrightarrow> q \<in> set (neighbors p) \<Longrightarrow>
         inside target_mask q \<Longrightarrow> cell target_mask q \<Longrightarrow> q \<in> component target_mask seed"

definition fill_inv ::
  "bool array2d \<Rightarrow> pixel \<Rightarrow> pixel list \<Rightarrow> bool array2d \<Rightarrow> pixel list \<Rightarrow> bool" where
  "fill_inv tm s st vis fp \<longleftrightarrow>
     distinct fp \<and> set fp \<subseteq> component tm s \<and>
     (\<forall>p\<in>set st. inside tm p \<and> cell tm p \<longrightarrow> p \<in> component tm s) \<and>
     (\<forall>p. inside tm p \<longrightarrow> cell vis p = (p \<in> set fp)) \<and>
     (\<forall>p\<in>set fp. \<forall>q\<in>set (neighbors p).
         inside tm q \<and> cell tm q \<longrightarrow> q \<in> set fp \<or> q \<in> set st)"

lemma flood_while_total:
  "flood_while tm st vis fp = Some (numpy_flood_loop tm st vis fp)"
  by (induction tm st vis fp rule: numpy_flood_loop.induct)
     (subst flood_while.simps, simp)+

lemma set_push_neighbors:
  "set (push_neighbors tm vis ns st) =
     set st \<union> {q \<in> set ns. inside tm q \<and> \<not> cell vis q \<and> cell tm q}"
  by (induction tm vis ns st rule: push_neighbors.induct) (auto simp: inside_def)

lemma component_inside: "p \<in> component tm s \<Longrightarrow> inside tm p \<and> cell tm p"
  by (induction rule: component.induct) auto

lemma fill_inv_skip:
  assumes "fill_inv tm s (p # st) vis fp"
    and "\<not> inside tm p \<or> cell vis p \<or> \<not> cell tm p"
  shows "fill_inv tm s st vis fp"
proof -
  have pf: "inside tm p \<and> cell tm p \<longrightarrow> p \<in> set fp"
    using assms unfolding fill_inv_def by blast
  have "\<forall>a\<in>set fp. \<forall>q\<in>set (neighbors a). inside tm q \<and> cell tm q \<longrightarrow>
      q \<in> set fp \<or> q \<in> set st"
  proof (intro ballI impI)
    fix a q
    assume "a \<in> set fp" "q \<in> set (neighbors a)" and q: "inside tm q \<and> cell tm q"
    then have "q \<in> set fp \<or> q \<in> set (p # st)"
      using assms(1) unfolding fill_inv_def by blast
    then show "q \<in> set fp \<or> q \<in> set st"
      using pf q by auto
  qed
  moreover have "\<forall>q\<in>set st. inside tm q \<and> cell tm q \<longrightarrow> q \<in> component tm s"
    using assms(1) unfolding fill_inv_def by simp
  ultimately show ?thesis
    using assms(1) unfolding fill_inv_def by blast
qed

lemma fill_inv_visit:
  assumes inv: "fill_inv tm s (p # st) vis fp"
    and p: "inside tm p" "\<not> cell vis p" "cell tm p"
  shows "fill_inv tm s (push_neighbors tm (put vis p True) (neighbors p) st)
           (put vis p True) (fp @ [p])"
proof -
  have pc: "p \<in> component tm s"
    using inv p unfolding fill_inv_def by simp
  have pn: "p \<notin> set fp"
    using inv p unfolding fill_inv_def by blast
  have vis: "\<And>q. inside tm q \<Longrightarrow> cell (put vis p True) q = (q \<in> set (fp @ [p]))"
    using inv unfolding fill_inv_def by (auto simp: put_def)
  have d: "distinct (fp @ [p])" and sub: "set (fp @ [p]) \<subseteq> component tm s"
    using inv pc pn unfolding fill_inv_def by auto
  have stk: "\<forall>q\<in>set (push_neighbors tm (put vis p True) (neighbors p) st).
      inside tm q \<and> cell tm q \<longrightarrow> q \<in> component tm s"
  proof
    fix q assume q: "q \<in> set (push_neighbors tm (put vis p True) (neighbors p) st)"
    show "inside tm q \<and> cell tm q \<longrightarrow> q \<in> component tm s"
    proof (cases "q \<in> set st")
      case True
      then show ?thesis using inv unfolding fill_inv_def by auto
    next
      case False
      then have "q \<in> set (neighbors p)"
        using q by (auto simp: set_push_neighbors)
      then show ?thesis using pc by (auto intro: component.step)
    qed
  qed
  have clo: "\<forall>a\<in>set (fp @ [p]). \<forall>q\<in>set (neighbors a). inside tm q \<and> cell tm q \<longrightarrow>
      q \<in> set (fp @ [p]) \<or> q \<in> set (push_neighbors tm (put vis p True) (neighbors p) st)"
  proof (intro ballI impI)
    fix a q
    assume a: "a \<in> set (fp @ [p])" and q: "q \<in> set (neighbors a)" "inside tm q \<and> cell tm q"
    show "q \<in> set (fp @ [p]) \<or> q \<in> set (push_neighbors tm (put vis p True) (neighbors p) st)"
    proof (cases "a = p")
      case True
      then show ?thesis
        using q vis[of q] by (auto simp: set_push_neighbors)
    next
      case False
      then have "a \<in> set fp" using a by auto
      then have "q \<in> set fp \<or> q \<in> set (p # st)"
        using inv q unfolding fill_inv_def by blast
      then show ?thesis by (auto simp: set_push_neighbors)
    qed
  qed
  show ?thesis
    unfolding fill_inv_def using d sub stk vis clo by blast
qed

lemma numpy_flood_loop_inv:
  assumes "fill_inv tm s st vis fp"
  shows "distinct (numpy_flood_loop tm st vis fp) \<and>
         set (numpy_flood_loop tm st vis fp) \<subseteq> component tm s \<and>
         set fp \<subseteq> set (numpy_flood_loop tm st vis fp) \<and>
         (\<forall>p\<in>set st. inside tm p \<and> cell tm p \<longrightarrow> p \<in> set (numpy_flood_loop tm st vis fp)) \<and>
         (\<forall>p\<in>set (numpy_flood_loop tm st vis fp). \<forall>q\<in>set (neighbors p).
             inside tm q \<and> cell tm q \<longrightarrow> q \<in> set (numpy_flood_loop tm st vis fp))"
  using assms
proof (induction tm st vis fp rule: numpy_flood_loop.induct)
  case (1 tm vis fp)
  then show ?case by (auto simp: fill_inv_def)
next
  case (2 tm x y st vis fp)
  let ?p = "(x, y)"
  show ?case
  proof (cases "inside tm ?p \<and> \<not> cell vis ?p \<and> cell tm ?p")
    case False
    then have skip: "\<not> inside tm ?p \<or> cell vis ?p \<or> \<not> cell tm ?p" by blast
    have eq: "numpy_flood_loop tm (?p # st) vis fp = numpy_flood_loop tm st vis fp"
      using skip by (auto simp: inside_def)
    have inv': "fill_inv tm s st vis fp"
      using fill_inv_skip[OF "2.prems" skip] .
    have IH: "distinct (numpy_flood_loop tm st vis fp) \<and>
         set (numpy_flood_loop tm st vis fp) \<subseteq> component tm s \<and>
         set fp \<subseteq> set (numpy_flood_loop tm st vis fp) \<and>
         (\<forall>p\<in>set st. inside tm p \<and> cell tm p \<longrightarrow> p \<in> set (numpy_flood_loop tm st vis fp)) \<and>
         (\<forall>p\<in>set (numpy_flood_loop tm st vis fp). \<forall>q\<in>set (neighbors p).
             inside tm q \<and> cell tm q \<longrightarrow> q \<in> set (numpy_flood_loop tm st vis fp))"
    proof (cases "x < 0 \<or> cols tm \<le> x \<or> y < 0 \<or> rows tm \<le> y")
      case True
      then show ?thesis using "2.IH"(1) inv' by blast
    next
      case oob: False
      then have "cell vis ?p \<or> \<not> cell tm ?p"
        using skip by (auto simp: inside_def)
      then show ?thesis using "2.IH"(2) oob inv' by blast
    qed
    have "inside tm ?p \<and> cell tm ?p \<longrightarrow> ?p \<in> set fp"
      using "2.prems" skip unfolding fill_inv_def by auto
    then show ?thesis
      unfolding eq using IH by auto
  next
    case True
    then have nb: "\<not> (x < 0 \<or> cols tm \<le> x \<or> y < 0 \<or> rows tm \<le> y)"
      and nv: "\<not> (cell vis ?p \<or> \<not> cell tm ?p)"
      by (auto simp: inside_def)
    let ?st = "push_neighbors tm (put vis ?p True) (neighbors ?p) st"
    let ?R = "numpy_flood_loop tm ?st (put vis ?p True) (fp @ [?p])"
    have eq: "numpy_flood_loop tm (?p # st) vis fp = ?R"
      using nb nv by simp
    have inv': "fill_inv tm s ?st (put vis ?p True) (fp @ [?p])"
      using fill_inv_visit[OF "2.prems"] True by blast
    have IH: "distinct ?R \<and> set ?R \<subseteq> component tm s \<and> set (fp @ [?p]) \<subseteq> set ?R \<and>
         (\<forall>p\<in>set ?st. inside tm p \<and> cell tm p \<longrightarrow> p \<in> set ?R) \<and>
         (\<forall>p\<in>set ?R. \<forall>q\<in>set (neighbors p). inside tm q \<and> cell tm q \<longrightarrow> q \<in> set ?R)"
      using "2.IH"(3)[OF nb nv inv'] .
    have "\<forall>p\<in>set st. p \<in> set ?st"
      by (simp add: set_push_neighbors)
    then show ?thesis
      unfolding eq using IH by auto
  qed
qed

lemma fill_inv_init: "fill_inv tm s [s] (zeros_like tm) []"
  by (auto simp: fill_inv_def zeros_like_def zeros_def intro: component.seed)

lemma numpy_flood_fill_component:
  "set (numpy_flood_fill sx sy tm) = component tm (sx, sy)"
proof
  show "set (numpy_flood_fill sx sy tm) \<subseteq> component tm (sx, sy)"
    unfolding numpy_flood_fill_def
    using numpy_flood_loop_inv[OF fill_inv_init] by blast
next
  have R: "\<forall>p\<in>set [(sx, sy)]. inside tm p \<and> cell tm p \<longrightarrow> p \<in> set (numpy_flood_fill sx sy tm)"
    "\<forall>p\<in>set (numpy_flood_fill sx sy tm). \<forall>q\<in>set (neighbors p).
         inside tm q \<and> cell tm q \<longrightarrow> q \<in> set (numpy_flood_fill sx sy tm)"
    unfolding numpy_flood_fill_def
    using numpy_flood_loop_inv[OF fill_inv_init, of tm "(sx, sy)"] by blast+
  show "component tm (sx, sy) \<subseteq> set (numpy_flood_fill sx sy tm)"
  proof
    fix p assume "p \<in> component tm (sx, sy)"
    then show "p \<in> set (numpy_flood_fill sx sy tm)"
      using R by (induction rule: component.induct) auto
  qed
qed

lemma numpy_flood_fill_distinct: "distinct (numpy_flood_fill sx sy tm)"
  unfolding numpy_flood_fill_def
  using numpy_flood_loop_inv[OF fill_inv_init] by blast


section \<open>The canvas and its entities\<close>

text \<open>
  \<open>Segmentation\<close> and \<open>Drawing\<close> objects. The field \<open>id\<close> of the source is \<open>seg_id\<close>
  and \<open>draw_id\<close> here. No object is mutated after it has been stored in a history entry,
  so the shared references of the source are values in the model.
\<close>

record segmentation =
  seg_id :: int
  color :: colour
  pixels :: "pixel list"
  border_pixels :: "pixel list"

definition Segmentation :: "int \<Rightarrow> colour \<Rightarrow> pixel list \<Rightarrow> segmentation" where
  "Segmentation i col ps = \<lparr>seg_id = i, color = col, pixels = ps, border_pixels = []\<rparr>"

record drawing =
  draw_id :: int
  draw_pixels :: "pixel list"
  thickness :: int

definition Drawing :: "int \<Rightarrow> pixel list \<Rightarrow> int \<Rightarrow> drawing" where
  "Drawing i ps t = \<lparr>draw_id = i, draw_pixels = ps, thickness = t\<rparr>"

text \<open>
  An entry of the undo or redo stack: the dictionary \<open>{'type': ..., 'data': ...}\<close> with
  its three kinds (\<open>'segmentation'\<close>, \<open>'drawing'\<close>, \<open>'merge'\<close>).
\<close>

datatype operation =
    Op_segmentation segmentation
  | Op_drawing drawing
  | Op_merge "segmentation list" segmentation

text \<open>The values of \<open>self.mode\<close>.\<close>

datatype mode = Mode_none | Mode_drawing | Mode_drag | Mode_paint | Mode_select | Mode_remove

datatype error = AttributeError

text \<open>
  The state of \<open>ImageCanvas\<close> the labelling engine reads and writes. Of
  \<open>original_pixmap\<close> only the size \<open>(width, height)\<close> is used. The dictionaries
  \<open>segmentations\<close> and \<open>drawings\<close> are association lists in insertion order, the order
  in which Python iterates them: \<open>d[k] = v\<close> is \<open>AList.update k v d\<close>, \<open>del d[k]\<close> is
  \<open>AList.delete k d\<close>, \<open>d.get(k)\<close> is \<open>map_of d k\<close>. The two stacks have their last
  appended entry at the head. The set \<open>selected_segmentations\<close> is a list without
  repetitions, read in the order in which Python iterates the set. A mouse position is
  the image coordinate under it (\<open>None\<close> outside the displayed image); zoom, panning and
  the rendering caches are not part of the model.
\<close>

record canvas =
  original_pixmap :: "(int \<times> int) option"
  mask_pixmap :: "colour array2d option"
  mode :: mode
  last_pos :: "pixel option option"
  drawing_flag :: bool
  segmentations :: "(int \<times> segmentation) list"
  next_seg_id :: int
  drawings :: "(int \<times> drawing) list"
  next_draw_id :: int
  current_drawing :: "drawing option"
  pen_thickness :: int
  undo_stack :: "operation list"
  redo_stack :: "operation list"
  changes_made :: bool
  pixel_labels :: "int array2d option"
  selected_segmentations :: "int list"

text \<open>
  What the engine takes from outside the repository: Qt's painter (\<open>drawPoint\<close> and
  \<open>drawLine\<close> with a pen of a colour and a width), the colour \<open>generate_random_color\<close>
  draws, and whether a progress dialog exists and the user has cancelled it when a given
  number of pixels has been processed.
\<close>

record env =
  drawPoint :: "colour \<Rightarrow> int \<Rightarrow> pixel \<Rightarrow> colour array2d \<Rightarrow> colour array2d"
  drawLine :: "colour \<Rightarrow> int \<Rightarrow> pixel \<Rightarrow> pixel \<Rightarrow> colour array2d \<Rightarrow> colour array2d"
  random_color :: colour
  progress_canceled :: "nat \<Rightarrow> bool"

definition black :: colour where "black = (0, 0, 0)"
definition white :: colour where "white = (255, 255, 255)"

subsection \<open>Images\<close>

text \<open>
  \<open>QImage.pixelColor\<close> gives an invalid colour (\<open>None\<close>) outside the image and
  \<open>QImage.setPixelColor\<close> ignores a coordinate outside it.
\<close>

definition pixelColor :: "colour array2d \<Rightarrow> pixel \<Rightarrow> colour option" where
  "pixelColor img p = (if inside img p then Some (cell img p) else None)"

definition setPixelColor :: "colour array2d \<Rightarrow> pixel \<Rightarrow> colour \<Rightarrow> colour array2d" where
  "setPixelColor img p col = (if inside img p then put img p col else img)"

definition widget_to_image_coords :: "canvas \<Rightarrow> pixel option \<Rightarrow> pixel option" where
  "widget_to_image_coords c pos = (if original_pixmap c = None then None else pos)"

subsection \<open>The pixel-label grid\<close>

definition initialize_pixel_labels :: "canvas \<Rightarrow> canvas" where
  "initialize_pixel_labels c =
     (case original_pixmap c of
        Some (width, height) \<Rightarrow> c\<lparr>pixel_labels := Some (zeros height width 0)\<rparr>
      | None \<Rightarrow> c\<lparr>pixel_labels := None\<rparr>)"

fun label_pixels :: "int \<Rightarrow> pixel list \<Rightarrow> int array2d \<Rightarrow> int array2d" where
  "label_pixels sid [] a = a"
| "label_pixels sid ((x, y) # ps) a =
     label_pixels sid ps
       (if 0 \<le> y \<and> y < rows a \<and> 0 \<le> x \<and> x < cols a then put a (x, y) sid else a)"

fun label_segmentations :: "(int \<times> segmentation) list \<Rightarrow> int array2d \<Rightarrow> int array2d" where
  "label_segmentations [] a = a"
| "label_segmentations ((sid, s) # rest) a =
     label_segmentations rest (label_pixels sid (pixels s) a)"

text \<open>
  \<open>update_pixel_labels\<close> clears the grid and writes the id of every region at its
  in-bounds pixels, region after region in the order of the dictionary. The grid of the
  source is a NumPy array of \<open>int32\<close>; ids are allocated one by one from 1, and the
  labels of the model are the ids themselves: the two agree for ids below \<open>2^31\<close>, and
  the source's write of a greater id is not modelled.
\<close>

definition update_pixel_labels :: "canvas \<Rightarrow> canvas" where
  "update_pixel_labels c =
     (let c1 = (if pixel_labels c = None then initialize_pixel_labels c else c) in
      case pixel_labels c1 of
        None \<Rightarrow> c1
      | Some a \<Rightarrow>
          c1\<lparr>pixel_labels :=
               Some (label_segmentations (segmentations c1) (a\<lparr>cell := (\<lambda>_. 0)\<rparr>))\<rparr>)"

definition get_pixel_label :: "canvas \<Rightarrow> int \<Rightarrow> int \<Rightarrow> int" where
  "get_pixel_label c x y =
     (case pixel_labels c of
        None \<Rightarrow> 0
      | Some a \<Rightarrow>
          if x < 0 \<or> y < 0 then 0
          else if y \<ge> rows a \<or> x \<ge> cols a then 0
          else cell a (x, y))"

definition get_segmentation_at_pixel :: "canvas \<Rightarrow> int \<Rightarrow> int \<Rightarrow> segmentation option" where
  "get_segmentation_at_pixel c x y =
     (let label = get_pixel_label c x y in
      if label = 0 then None else map_of (segmentations c) label)"

subsection \<open>Flood fill on the mask\<close>

definition is_pixel_black :: "canvas \<Rightarrow> int \<Rightarrow> int \<Rightarrow> bool" where
  "is_pixel_black c x y =
     (case mask_pixmap c of
        None \<Rightarrow> False
      | Some m \<Rightarrow>
          if x < 0 \<or> x \<ge> cols m \<or> y < 0 \<or> y \<ge> rows m then False
          else (case cell m (x, y) of (r, g, b) \<Rightarrow> r < 10 \<and> g < 10 \<and> b < 10))"

definition build_target_mask :: "colour array2d \<Rightarrow> colour option \<Rightarrow> bool array2d" where
  "build_target_mask img target_color =
     fold (\<lambda>y m.
            fold (\<lambda>x m. if pixelColor img (x, y) = target_color then put m (x, y) True else m)
              [0..cols img - 1] m)
       [0..rows img - 1]
       (zeros (rows img) (cols img) False)"

definition flood_fill :: "canvas \<Rightarrow> int \<Rightarrow> int \<Rightarrow> colour \<Rightarrow> canvas \<times> pixel list" where
  "flood_fill c start_x start_y fill_color =
     (case mask_pixmap c of
        None \<Rightarrow> (c, [])
      | Some img \<Rightarrow>
          let target_color = pixelColor img (start_x, start_y);
              target_mask = build_target_mask img target_color;
              filled_pixels = numpy_flood_fill start_x start_y target_mask;
              img' = fold (\<lambda>p im. setPixelColor im p fill_color) filled_pixels img
          in (c\<lparr>mask_pixmap := Some img'\<rparr>, filled_pixels))"

subsection \<open>Borders\<close>

text \<open>
  The inner loop of \<open>compute_segmentation_borders\<close> over the four neighbours of a
  pixel, and the outer loop over the pixels with the progress dialog's early exit.
\<close>

fun is_border ::
  "int \<Rightarrow> int \<Rightarrow> (int \<Rightarrow> int \<Rightarrow> int) \<Rightarrow> pixel set \<Rightarrow> int \<Rightarrow> pixel list \<Rightarrow> bool" where
  "is_border w h label segmentation_set sid [] = False"
| "is_border w h label segmentation_set sid ((nx, ny) # ns) =
     (if 0 \<le> nx \<and> nx < w \<and> 0 \<le> ny \<and> ny < h
      then (if (nx, ny) \<notin> segmentation_set
            then (if label nx ny \<noteq> sid then True
                  else is_border w h label segmentation_set sid ns)
            else is_border w h label segmentation_set sid ns)
      else is_border w h label segmentation_set sid ns)"

fun border_loop ::
  "int \<Rightarrow> int \<Rightarrow> (int \<Rightarrow> int \<Rightarrow> int) \<Rightarrow> pixel set \<Rightarrow> int \<Rightarrow> bool \<Rightarrow> (nat \<Rightarrow> bool) \<Rightarrow>
   pixel list \<Rightarrow> nat \<Rightarrow> pixel list \<Rightarrow> pixel list" where
  "border_loop w h label segmentation_set sid progress canceled [] processed border = border"
| "border_loop w h label segmentation_set sid progress canceled (p # ps) processed border =
     (let border' = (if is_border w h label segmentation_set sid (neighbors p)
                     then border @ [p] else border);
          processed' = processed + 1
      in if progress \<and> processed' mod 100 = 0 \<and> canceled processed' then border'
         else border_loop w h label segmentation_set sid progress canceled ps processed' border')"

text \<open>
  Without an image \<open>self.original_pixmap\<close> is \<open>None\<close>, and the same loop raises
  \<open>AttributeError\<close> when it evaluates \<open>self.original_pixmap.width()\<close>: the chained
  comparison \<open>0 <= nx < self.original_pixmap.width()\<close> does so at the first neighbour with
  \<open>0 <= nx\<close>. Until then no pixel is a border pixel, and the progress dialog can end the
  loop as before.
\<close>

fun border_loop_no_image :: "bool \<Rightarrow> (nat \<Rightarrow> bool) \<Rightarrow> pixel list \<Rightarrow> nat \<Rightarrow> error + pixel list" where
  "border_loop_no_image progress canceled [] processed = Inr []"
| "border_loop_no_image progress canceled (p # ps) processed =
     (if \<exists>(nx, ny)\<in>set (neighbors p). 0 \<le> nx then Inl AttributeError
      else let processed' = processed + 1
           in if progress \<and> processed' mod 100 = 0 \<and> canceled processed' then Inr []
              else border_loop_no_image progress canceled ps processed')"

definition compute_segmentation_borders ::
  "env \<Rightarrow> canvas \<Rightarrow> segmentation \<Rightarrow> error + segmentation" where
  "compute_segmentation_borders e c segmentation =
     (if pixels segmentation = [] then Inr (segmentation\<lparr>border_pixels := []\<rparr>)
      else case original_pixmap c of
        None \<Rightarrow>
          (case border_loop_no_image (length (pixels segmentation) > 5000) (progress_canceled e)
                  (pixels segmentation) 0 of
             Inl err \<Rightarrow> Inl err
           | Inr border \<Rightarrow> Inr (segmentation\<lparr>border_pixels := border\<rparr>))
      | Some (width, height) \<Rightarrow>
          Inr (segmentation\<lparr>border_pixels :=
                 border_loop width height (get_pixel_label c) (set (pixels segmentation))
                   (seg_id segmentation) (length (pixels segmentation) > 5000)
                   (progress_canceled e) (pixels segmentation) 0 []\<rparr>))"

subsection \<open>History\<close>

definition push_to_undo_stack :: "canvas \<Rightarrow> operation \<Rightarrow> canvas" where
  "push_to_undo_stack c op =
     c\<lparr>undo_stack := op # undo_stack c, redo_stack := [], changes_made := True\<rparr>"

text \<open>
  \<open>set_segmentation_pixels_to_black\<close> and \<open>redraw_segmentation_pixels\<close> are one and the
  same loop in the source, with black and with the region's colour: nothing happens
  without a mask or without pixels, and otherwise the in-bounds pixels are set one by one.
  \<open>paint_pixels\<close> is that loop.
\<close>

definition paint_pixels :: "canvas \<Rightarrow> pixel list \<Rightarrow> colour \<Rightarrow> canvas" where
  "paint_pixels c ps col =
     (case mask_pixmap c of
        None \<Rightarrow> c
      | Some img \<Rightarrow>
          if ps = [] then c
          else c\<lparr>mask_pixmap :=
                 Some (fold (\<lambda>p im. setPixelColor im p col) (filter (inside img) ps) img)\<rparr>)"

definition set_segmentation_pixels_to_black :: "canvas \<Rightarrow> pixel list \<Rightarrow> canvas" where
  "set_segmentation_pixels_to_black c ps = paint_pixels c ps black"

definition redraw_segmentation_pixels :: "canvas \<Rightarrow> segmentation \<Rightarrow> canvas" where
  "redraw_segmentation_pixels c segmentation =
     paint_pixels c (pixels segmentation) (color segmentation)"

definition redraw_single_segmentation :: "canvas \<Rightarrow> segmentation \<Rightarrow> canvas" where
  "redraw_single_segmentation c segmentation =
     (case mask_pixmap c of
        None \<Rightarrow> c
      | Some img \<Rightarrow>
          c\<lparr>mask_pixmap :=
               Some (fold (\<lambda>p im. setPixelColor im p (color segmentation))
                      (filter (inside img) (pixels segmentation)) img)\<rparr>)"

text \<open>
  Likewise \<open>draw_black_lines_between_pixels\<close> and \<open>redraw_drawing_pixels\<close> are one
  loop, with a black and with a white pen: a line from each recorded point to the next,
  when both are inside the image.
\<close>

definition draw_lines_between_pixels ::
  "env \<Rightarrow> canvas \<Rightarrow> colour \<Rightarrow> pixel list \<Rightarrow> int \<Rightarrow> canvas" where
  "draw_lines_between_pixels e c col ps t =
     (case mask_pixmap c of
        None \<Rightarrow> c
      | Some img \<Rightarrow>
          if length ps < 2 then c
          else c\<lparr>mask_pixmap :=
                 Some (fold (\<lambda>(p1, p2) im.
                              if inside img p1 \<and> inside img p2 then drawLine e col t p1 p2 im else im)
                         (zip ps (tl ps)) img)\<rparr>)"

definition draw_black_lines_between_pixels :: "env \<Rightarrow> canvas \<Rightarrow> pixel list \<Rightarrow> int \<Rightarrow> canvas" where
  "draw_black_lines_between_pixels e c ps t = draw_lines_between_pixels e c black ps t"

definition redraw_drawing_pixels :: "env \<Rightarrow> canvas \<Rightarrow> drawing \<Rightarrow> canvas" where
  "redraw_drawing_pixels e c d =
     draw_lines_between_pixels e c white (draw_pixels d) (thickness d)"

text \<open>\<open>max(d.keys())\<close>, which the source calls on a dictionary that is not empty.\<close>

definition max_key :: "(int \<times> 'v) list \<Rightarrow> int" where
  "max_key d = Max (set (map fst d))"

subsection \<open>The operations\<close>

text \<open>
  \<open>flood_fill_at_position\<close>. The new object is stored in the dictionary first and its
  borders are computed afterwards, before the grid is updated; the entry of the dictionary
  is the same object, so it is stored again with its borders.
\<close>

definition flood_fill_at_position :: "env \<Rightarrow> canvas \<Rightarrow> pixel option \<Rightarrow> error + canvas" where
  "flood_fill_at_position e c pos =
     (if mask_pixmap c = None then Inr c
      else case widget_to_image_coords c pos of
        None \<Rightarrow> Inr c
      | Some (x, y) \<Rightarrow>
          if is_pixel_black c x y then
            (case flood_fill c x y (random_color e) of
               (c1, filled_pixels) \<Rightarrow>
                 if filled_pixels \<noteq> [] then
                   (let segmentation = Segmentation (next_seg_id c1) (random_color e) filled_pixels;
                        c2 = c1\<lparr>segmentations :=
                                  AList.update (next_seg_id c1) segmentation (segmentations c1),
                                next_seg_id := next_seg_id c1 + 1\<rparr>
                    in case compute_segmentation_borders e c2 segmentation of
                         Inl err \<Rightarrow> Inl err
                       | Inr segmentation' \<Rightarrow>
                           Inr (update_pixel_labels
                                 (push_to_undo_stack
                                   (c2\<lparr>segmentations :=
                                         AList.update (next_seg_id c1) segmentation' (segmentations c2)\<rparr>)
                                   (Op_segmentation segmentation'))))
                 else Inr c1)
          else Inr c)"

text \<open>
  \<open>undo_last_operation\<close>. \<open>self.segmentations.pop(max(self.segmentations.keys()))\<close>
  cannot miss its key; the model's branch for a missing key leaves the state as it is.
\<close>

definition undo_last_operation :: "env \<Rightarrow> canvas \<Rightarrow> canvas" where
  "undo_last_operation e c =
     (case undo_stack c of
        [] \<Rightarrow> c
      | last_operation # rest \<Rightarrow>
          let c1 = c\<lparr>undo_stack := rest\<rparr> in
          update_pixel_labels
            (case last_operation of
               Op_segmentation _ \<Rightarrow>
                 if segmentations c1 \<noteq> [] then
                   (let last_seg_id = max_key (segmentations c1) in
                    case map_of (segmentations c1) last_seg_id of
                      None \<Rightarrow> c1
                    | Some removed_seg \<Rightarrow>
                        (let c2 = set_segmentation_pixels_to_black
                                    (c1\<lparr>segmentations := AList.delete last_seg_id (segmentations c1)\<rparr>)
                                    (pixels removed_seg)
                         in c2\<lparr>redo_stack := last_operation # redo_stack c2\<rparr>))
                 else c1
             | Op_drawing _ \<Rightarrow>
                 if drawings c1 \<noteq> [] then
                   (let last_draw_id = max_key (drawings c1) in
                    case map_of (drawings c1) last_draw_id of
                      None \<Rightarrow> c1
                    | Some removed_draw \<Rightarrow>
                        (let c2 = draw_black_lines_between_pixels e
                                    (c1\<lparr>drawings := AList.delete last_draw_id (drawings c1)\<rparr>)
                                    (draw_pixels removed_draw) (thickness removed_draw)
                         in c2\<lparr>redo_stack := last_operation # redo_stack c2\<rparr>))
                 else c1
             | Op_merge old_segmentations new_segmentation \<Rightarrow>
                 (let c2 = c1\<lparr>segmentations :=
                                fold (\<lambda>s d. AList.update (seg_id s) s d) old_segmentations
                                  (AList.delete (seg_id new_segmentation) (segmentations c1))\<rparr>
                  in c2\<lparr>redo_stack := last_operation # redo_stack c2\<rparr>)))"

definition redo_last_operation :: "env \<Rightarrow> canvas \<Rightarrow> canvas" where
  "redo_last_operation e c =
     (case redo_stack c of
        [] \<Rightarrow> c
      | last_operation # rest \<Rightarrow>
          let c1 = c\<lparr>redo_stack := rest\<rparr> in
          update_pixel_labels
            (case last_operation of
               Op_segmentation segmentation \<Rightarrow>
                 (let c2 = redraw_segmentation_pixels
                             (c1\<lparr>segmentations :=
                                   AList.update (seg_id segmentation) segmentation (segmentations c1)\<rparr>)
                             segmentation
                  in c2\<lparr>undo_stack := last_operation # undo_stack c2\<rparr>)
             | Op_drawing d \<Rightarrow>
                 (let c2 = redraw_drawing_pixels e
                             (c1\<lparr>drawings := AList.update (draw_id d) d (drawings c1)\<rparr>) d
                  in c2\<lparr>undo_stack := last_operation # undo_stack c2\<rparr>)
             | Op_merge old_segmentations new_segmentation \<Rightarrow>
                 (let c2 = c1\<lparr>segmentations :=
                                AList.update (seg_id new_segmentation) new_segmentation
                                  (fold (\<lambda>s d. AList.delete (seg_id s) d) old_segmentations
                                     (segmentations c1))\<rparr>
                  in c2\<lparr>undo_stack := last_operation # undo_stack c2\<rparr>)))"

text \<open>
  \<open>remove_segmentation\<close>; its callers pass the object \<open>get_segmentation_at_pixel\<close>
  found, never \<open>None\<close>.
\<close>

definition remove_segmentation :: "canvas \<Rightarrow> segmentation option \<Rightarrow> canvas" where
  "remove_segmentation c seg =
     (case seg of
        None \<Rightarrow> c
      | Some segmentation \<Rightarrow>
          (case mask_pixmap c of
             None \<Rightarrow> c
           | Some img \<Rightarrow>
               (update_pixel_labels
                 (c\<lparr>mask_pixmap :=
                      Some (fold (\<lambda>p im. setPixelColor im p black) (pixels segmentation) img),
                    segmentations := AList.delete (seg_id segmentation) (segmentations c),
                    selected_segmentations :=
                      removeAll (seg_id segmentation) (selected_segmentations c),
                    undo_stack := [],
                    redo_stack := []\<rparr>))
               \<lparr>changes_made := True\<rparr>))"

subsection \<open>Selection and merge\<close>

text \<open>
  \<open>s.add(i)\<close> on the set of selected ids; \<open>s.discard(i)\<close> is \<open>removeAll i\<close>. The list
  keeps the ids in the order in which they were added. Python iterates a set in the order
  of its hash table, which for small integers need not be the order of insertion; what is
  proved of a merge below is proved for every order of the list.
\<close>

definition set_add :: "int \<Rightarrow> int list \<Rightarrow> int list" where
  "set_add i xs = (if i \<in> set xs then xs else xs @ [i])"

definition clear_selection :: "canvas \<Rightarrow> canvas" where
  "clear_selection c = c\<lparr>selected_segmentations := []\<rparr>"

definition select_region_at_position :: "canvas \<Rightarrow> pixel option \<Rightarrow> bool \<Rightarrow> canvas" where
  "select_region_at_position c pos shift_pressed =
     (case widget_to_image_coords c pos of
        None \<Rightarrow> c
      | Some (x, y) \<Rightarrow>
          (case get_segmentation_at_pixel c x y of
             Some segmentation \<Rightarrow>
               if shift_pressed then
                 (if seg_id segmentation \<in> set (selected_segmentations c)
                  then c\<lparr>selected_segmentations :=
                           removeAll (seg_id segmentation) (selected_segmentations c)\<rparr>
                  else c\<lparr>selected_segmentations :=
                           set_add (seg_id segmentation) (selected_segmentations c)\<rparr>)
               else
                 (if seg_id segmentation \<in> set (selected_segmentations c)
                  then c\<lparr>selected_segmentations :=
                           removeAll (seg_id segmentation) (selected_segmentations c)\<rparr>
                  else c\<lparr>selected_segmentations := [seg_id segmentation]\<rparr>)
           | None \<Rightarrow>
               if selected_segmentations c \<noteq> [] then c\<lparr>selected_segmentations := []\<rparr> else c))"

definition toggle_segmentation_selection :: "canvas \<Rightarrow> int \<Rightarrow> bool \<Rightarrow> canvas" where
  "toggle_segmentation_selection c sid checked =
     (if checked then c\<lparr>selected_segmentations := set_add sid (selected_segmentations c)\<rparr>
      else c\<lparr>selected_segmentations := removeAll sid (selected_segmentations c)\<rparr>)"

text \<open>
  \<open>merge_selected_segmentations\<close>. \<open>old_segmentations\<close> are the selected ids found in
  the dictionary, in the order the set is iterated.
\<close>

definition selected_present :: "canvas \<Rightarrow> segmentation list" where
  "selected_present c =
     concat (map (\<lambda>sid. case map_of (segmentations c) sid of None \<Rightarrow> [] | Some s \<Rightarrow> [s])
               (selected_segmentations c))"

definition merge_selected_segmentations :: "env \<Rightarrow> canvas \<Rightarrow> canvas" where
  "merge_selected_segmentations e c =
     (if length (selected_segmentations c) < 2 then c
      else
        let old_segmentations = selected_present c;
            all_pixels = concat (map pixels old_segmentations);
            all_border_pixels = concat (map border_pixels old_segmentations)
        in if all_pixels = [] then c
           else
             let merged_segmentation =
                   (Segmentation (next_seg_id c) (random_color e) all_pixels)
                     \<lparr>border_pixels := all_border_pixels\<rparr>;
                 c1 = c\<lparr>segmentations :=
                          AList.update (next_seg_id c) merged_segmentation
                            (fold AList.delete (selected_segmentations c) (segmentations c)),
                        next_seg_id := next_seg_id c + 1,
                        selected_segmentations := []\<rparr>
             in redraw_single_segmentation
                  (update_pixel_labels
                    (push_to_undo_stack c1 (Op_merge old_segmentations merged_segmentation)))
                  merged_segmentation)"

subsection \<open>Strokes and the mouse\<close>

text \<open>
  \<open>draw_at_position\<close>, \<open>draw_line\<close> and the three mouse handlers, for the left button.
  \<open>pen_color\<close> is the pen both drawing functions set up: black in remove mode, white
  otherwise. \<open>start_drawing\<close> is the block that the drawing branch and the remove branch
  of \<open>mousePressEvent\<close> share, and \<open>remove_at\<close> the block that \<open>mousePressEvent\<close> and
  \<open>mouseMoveEvent\<close> share: \<open>remove_segmentation\<close>, a second \<open>update_pixel_labels\<close> and
  \<open>changes_made\<close>. Panning in drag mode moves the viewport only, which is not modelled.
\<close>

definition pen_color :: "canvas \<Rightarrow> colour" where
  "pen_color c = (if mode c = Mode_remove then black else white)"

definition draw_at_position :: "env \<Rightarrow> canvas \<Rightarrow> pixel option \<Rightarrow> canvas" where
  "draw_at_position e c pos =
     (case mask_pixmap c of
        None \<Rightarrow> c
      | Some img \<Rightarrow>
          (case widget_to_image_coords c pos of
             None \<Rightarrow> c
           | Some img_pos \<Rightarrow>
               c\<lparr>mask_pixmap := Some (drawPoint e (pen_color c) (pen_thickness c) img_pos img)\<rparr>))"

definition draw_line :: "env \<Rightarrow> canvas \<Rightarrow> pixel option \<Rightarrow> pixel option \<Rightarrow> canvas" where
  "draw_line e c start_pos end_pos =
     (case mask_pixmap c of
        None \<Rightarrow> c
      | Some img \<Rightarrow>
          (case (widget_to_image_coords c start_pos, widget_to_image_coords c end_pos) of
             (Some start_img, Some end_img) \<Rightarrow>
               c\<lparr>mask_pixmap :=
                    Some (drawLine e (pen_color c) (pen_thickness c) start_img end_img img),
                  current_drawing :=
                    (case current_drawing c of
                       None \<Rightarrow> None
                     | Some d \<Rightarrow> Some (d\<lparr>draw_pixels := draw_pixels d @ [start_img, end_img]\<rparr>))\<rparr>
           | _ \<Rightarrow> c))"

definition start_drawing :: "env \<Rightarrow> canvas \<Rightarrow> pixel option \<Rightarrow> canvas" where
  "start_drawing e c pos =
     draw_at_position e
       (c\<lparr>drawing_flag := True, last_pos := Some pos,
          current_drawing := Some (Drawing (next_draw_id c) [] (pen_thickness c)),
          next_draw_id := next_draw_id c + 1\<rparr>)
       pos"

definition remove_at :: "canvas \<Rightarrow> segmentation \<Rightarrow> canvas" where
  "remove_at c segmentation =
     (update_pixel_labels (remove_segmentation c (Some segmentation)))\<lparr>changes_made := True\<rparr>"

definition mousePressEvent :: "env \<Rightarrow> canvas \<Rightarrow> pixel option \<Rightarrow> bool \<Rightarrow> error + canvas" where
  "mousePressEvent e c pos shift_pressed =
     (if mode c = Mode_drawing \<and> mask_pixmap c \<noteq> None then Inr (start_drawing e c pos)
      else if mode c = Mode_drag then Inr (c\<lparr>drawing_flag := True, last_pos := Some pos\<rparr>)
      else if mode c = Mode_paint \<and> mask_pixmap c \<noteq> None then flood_fill_at_position e c pos
      else if mode c = Mode_select \<and> pixel_labels c \<noteq> None
        then Inr (select_region_at_position c pos shift_pressed)
      else if mode c = Mode_remove \<and> mask_pixmap c \<noteq> None then
        (case widget_to_image_coords c pos of
           None \<Rightarrow> Inr (start_drawing e c pos)
         | Some (x, y) \<Rightarrow>
             (case get_segmentation_at_pixel c x y of
                Some segmentation \<Rightarrow>
                  Inr ((remove_at c segmentation)\<lparr>drawing_flag := True, last_pos := Some pos\<rparr>)
              | None \<Rightarrow> Inr (start_drawing e c pos)))
      else Inr c)"

text \<open>
  \<open>mouseMoveEvent\<close> acts when a button is down and a position is recorded. The source
  tests the truth value of the recorded \<open>QPoint\<close>, and the point \<open>(0, 0)\<close> of the widget
  is false: after a press at that very point every move is ignored. The positions of the
  model are image coordinates, which do not tell the widget's origin apart; a stroke of the
  source that starts there is the run of the model without its moves.
\<close>

definition mouseMoveEvent :: "env \<Rightarrow> canvas \<Rightarrow> pixel option \<Rightarrow> canvas" where
  "mouseMoveEvent e c pos =
     (case last_pos c of
        None \<Rightarrow> c
      | Some lp \<Rightarrow>
          if \<not> drawing_flag c then c
          else if mode c = Mode_drawing \<and> mask_pixmap c \<noteq> None
            then (draw_line e c lp pos)\<lparr>last_pos := Some pos\<rparr>
          else if mode c = Mode_remove \<and> mask_pixmap c \<noteq> None then
            (if current_drawing c \<noteq> None
             then (draw_line e c lp pos)\<lparr>last_pos := Some pos\<rparr>
             else (case widget_to_image_coords c pos of
                     None \<Rightarrow> c
                   | Some (x, y) \<Rightarrow>
                       (case get_segmentation_at_pixel c x y of
                          None \<Rightarrow> c
                        | Some segmentation \<Rightarrow>
                            (remove_at c segmentation)\<lparr>last_pos := Some pos\<rparr>)))
          else c)"

definition mouseReleaseEvent :: "canvas \<Rightarrow> canvas" where
  "mouseReleaseEvent c =
     (let c1 = c\<lparr>drawing_flag := False, last_pos := None\<rparr> in
      if mode c1 = Mode_drag then c1
      else if mode c1 = Mode_drawing \<or> mode c1 = Mode_remove then
        (case current_drawing c1 of
           None \<Rightarrow> c1
         | Some d \<Rightarrow>
             (if length (draw_pixels d) > 0
              then push_to_undo_stack
                     (c1\<lparr>drawings := AList.update (draw_id d) d (drawings c1)\<rparr>) (Op_drawing d)
              else c1)\<lparr>current_drawing := None\<rparr>)
      else c1)"

definition set_mode :: "canvas \<Rightarrow> mode \<Rightarrow> canvas" where
  "set_mode c m =
     (let c1 = (if mode c = Mode_select \<and> (m = Mode_drawing \<or> m = Mode_paint)
                then clear_selection c else c);
          c2 = c1\<lparr>mode := m\<rparr>
      in if m = Mode_none then c2\<lparr>drawing_flag := False, last_pos := None\<rparr> else c2)"

text \<open>
  The events a user can send to a canvas (left mouse button, mode buttons, the check box of
  a region in the side panel, pen width, merge, undo, redo), and a run of them, which stops
  at the first exception.
\<close>

datatype event =
    Set_mode mode
  | Mouse_press "pixel option" bool
  | Mouse_move "pixel option"
  | Mouse_release
  | Toggle_checkbox int bool
  | Clear_selection
  | Pen_thickness int
  | Merge
  | Undo
  | Redo

fun step :: "env \<Rightarrow> canvas \<Rightarrow> event \<Rightarrow> error + canvas" where
  "step e c (Set_mode m) = Inr (set_mode c m)"
| "step e c (Mouse_press pos shift_pressed) = mousePressEvent e c pos shift_pressed"
| "step e c (Mouse_move pos) = Inr (mouseMoveEvent e c pos)"
| "step e c Mouse_release = Inr (mouseReleaseEvent c)"
| "step e c (Toggle_checkbox sid checked) = Inr (toggle_segmentation_selection c sid checked)"
| "step e c Clear_selection = Inr (clear_selection c)"
| "step e c (Pen_thickness t) = Inr (c\<lparr>pen_thickness := t\<rparr>)"
| "step e c Merge = Inr (merge_selected_segmentations e c)"
| "step e c Undo = Inr (undo_last_operation e c)"
| "step e c Redo = Inr (redo_last_operation e c)"

fun run :: "env \<Rightarrow> canvas \<Rightarrow> event list \<Rightarrow> error + canvas" where
  "run e c [] = Inr c"
| "run e c (ev # evs) = (case step e c ev of Inl err \<Rightarrow> Inl err | Inr c' \<Rightarrow> run e c' evs)"

text \<open>
  The canvas after \<open>load_image\<close> of a \<open>width \<times> height\<close> image and \<open>create_blank_mask\<close>:
  a black mask, no regions, no history, no label grid yet.
\<close>

definition blank_canvas :: "int \<Rightarrow> int \<Rightarrow> canvas" where
  "blank_canvas width height =
     \<lparr>original_pixmap = Some (width, height),
      mask_pixmap = Some (zeros height width black),
      mode = Mode_none, last_pos = None, drawing_flag = False,
      segmentations = [], next_seg_id = 1, drawings = [], next_draw_id = 1,
      current_drawing = None, pen_thickness = 3,
      undo_stack = [], redo_stack = [], changes_made = False,
      pixel_labels = None, selected_segmentations = []\<rparr>"

section \<open>Flood fill: termination and result\<close>

text \<open>
  The set the specification asks of a flood fill: the pixels of the image that a path of
  4-neighbour steps joins to the seed, every pixel of the path inside the image and of
  exactly the seed's value.
\<close>

inductive_set connected_same_value :: "colour array2d \<Rightarrow> pixel \<Rightarrow> pixel set"
  for img :: "colour array2d" and seed :: pixel where
  seed: "inside img seed \<Longrightarrow> seed \<in> connected_same_value img seed"
| step: "p \<in> connected_same_value img seed \<Longrightarrow> q \<in> set (neighbors p) \<Longrightarrow>
         inside img q \<Longrightarrow> cell img q = cell img seed \<Longrightarrow> q \<in> connected_same_value img seed"

lemma cell_put: "cell (put a q v) p = (if p = q then v else cell a p)"
  by (simp add: put_def)

lemma shape_put [simp]: "rows (put a q v) = rows a" "cols (put a q v) = cols a"
  by (simp_all add: put_def)

lemma fold_row_mask:
  "cell (fold (\<lambda>x m. if P (x, y) then put m (x, y) True else m) xs m) p =
     (cell m p \<or> (snd p = y \<and> fst p \<in> set xs \<and> P p))"
proof (induction xs arbitrary: m)
  case Nil
  show ?case by simp
next
  case (Cons x xs)
  have "cell (if P (x, y) then put m (x, y) True else m) p =
      (cell m p \<or> (p = (x, y) \<and> P p))"
    by (simp add: cell_put)
  moreover have "(p = (x, y)) = (snd p = y \<and> fst p = x)"
    by (cases p) auto
  ultimately show ?case
    unfolding fold_simps Cons.IH by (simp only: list.set insert_iff) blast
qed

lemma fold_row_mask_shape:
  "rows (fold (\<lambda>x m. if P (x, y) then put m (x, y) True else m) xs m) = rows m \<and>
   cols (fold (\<lambda>x m. if P (x, y) then put m (x, y) True else m) xs m) = cols m"
  by (induction xs arbitrary: m) simp_all

lemma fold_rows_mask:
  "cell (fold (\<lambda>y m. fold (\<lambda>x m. if P (x, y) then put m (x, y) True else m) xs m) ys m) p =
     (cell m p \<or> (snd p \<in> set ys \<and> fst p \<in> set xs \<and> P p))"
proof (induction ys arbitrary: m)
  case Nil
  show ?case by simp
next
  case (Cons y ys)
  show ?case
    unfolding fold_simps Cons.IH fold_row_mask by (simp only: list.set insert_iff) blast
qed

lemma fold_rows_mask_shape:
  "rows (fold (\<lambda>y m. fold (\<lambda>x m. if P (x, y) then put m (x, y) True else m) xs m) ys m) = rows m \<and>
   cols (fold (\<lambda>y m. fold (\<lambda>x m. if P (x, y) then put m (x, y) True else m) xs m) ys m) = cols m"
  by (induction ys arbitrary: m) (simp_all add: fold_row_mask_shape)

lemma build_target_mask_cell:
  "cell (build_target_mask img t) p = (inside img p \<and> pixelColor img p = t)"
  unfolding build_target_mask_def
  using fold_rows_mask[of "\<lambda>q. pixelColor img q = t" "[0..cols img - 1]" "[0..rows img - 1]"
      "zeros (rows img) (cols img) False" p]
  by (auto simp: zeros_def inside_def)

lemma build_target_mask_shape:
  "rows (build_target_mask img t) = rows img" "cols (build_target_mask img t) = cols img"
  unfolding build_target_mask_def
  using fold_rows_mask_shape[of "\<lambda>q. pixelColor img q = t" "[0..cols img - 1]" "[0..rows img - 1]"
      "zeros (rows img) (cols img) False"]
  by (auto simp: zeros_def)

lemma inside_build_target_mask: "inside (build_target_mask img t) p = inside img p"
  by (simp add: inside_def build_target_mask_shape)

lemma component_target_mask:
  assumes "inside img s"
  shows "component (build_target_mask img (pixelColor img s)) s = connected_same_value img s"
proof (intro set_eqI iffI)
  fix p assume "p \<in> component (build_target_mask img (pixelColor img s)) s"
  then show "p \<in> connected_same_value img s"
  proof (induction rule: component.induct)
    case seed
    then show ?case using assms by (auto intro: connected_same_value.seed)
  next
    case (step p q)
    then have "inside img q" "cell img q = cell img s"
      using assms by (auto simp: build_target_mask_cell pixelColor_def split: if_splits)
    then show ?case using step by (auto intro: connected_same_value.step)
  qed
next
  fix p assume "p \<in> connected_same_value img s"
  then show "p \<in> component (build_target_mask img (pixelColor img s)) s"
  proof (induction rule: connected_same_value.induct)
    case seed
    then show ?case
      by (auto intro!: component.seed simp: build_target_mask_cell inside_build_target_mask)
  next
    case (step p q)
    then have "cell (build_target_mask img (pixelColor img s)) q"
      using assms by (simp add: build_target_mask_cell pixelColor_def)
    then show ?case
      using step by (auto intro: component.step simp: inside_build_target_mask)
  qed
qed

lemma connected_same_value_sound:
  "p \<in> connected_same_value img s \<Longrightarrow> inside img p \<and> cell img p = cell img s"
  by (induction rule: connected_same_value.induct) auto

text \<open>
  C6. For every target mask and every seed, inside the mask or not, the \<open>while stack:\<close>
  loop of \<open>_numpy_flood_fill\<close> leaves the loop and returns a list: the run does not
  diverge. No pixel is in the returned list twice, so each pixel is marked and expanded at
  most once. The termination proof of \<open>numpy_flood_loop\<close> gives the bound behind it:
  four times the number of unvisited target cells plus the stack's length falls with
  every iteration.
\<close>

theorem numpy_flood_fill_terminates:
  "\<exists>filled_pixels.
     flood_while target_mask [(start_x, start_y)] (zeros_like target_mask) [] = Some filled_pixels \<and>
     filled_pixels = numpy_flood_fill start_x start_y target_mask \<and>
     distinct filled_pixels"
  unfolding flood_while_total numpy_flood_fill_def[symmetric]
  using numpy_flood_fill_distinct by blast

text \<open>
  C5. For a seed inside the mask image, \<open>flood_fill\<close> returns exactly the 4-connected
  component of the seed among the pixels whose colour equals the seed's colour (equality of
  colours, no tolerance), each pixel once; every returned pixel is inside the image and has
  the seed's original colour.
\<close>

theorem flood_fill_connected_component:
  assumes "mask_pixmap c = Some img" and "inside img (start_x, start_y)"
  shows "set (snd (flood_fill c start_x start_y fill_color)) =
           connected_same_value img (start_x, start_y) \<and>
         distinct (snd (flood_fill c start_x start_y fill_color)) \<and>
         (\<forall>p\<in>set (snd (flood_fill c start_x start_y fill_color)).
            inside img p \<and> cell img p = cell img (start_x, start_y))"
proof -
  have eq: "snd (flood_fill c start_x start_y fill_color) =
      numpy_flood_fill start_x start_y
        (build_target_mask img (pixelColor img (start_x, start_y)))"
    using assms(1) by (simp add: flood_fill_def Let_def)
  have s: "set (snd (flood_fill c start_x start_y fill_color)) =
      connected_same_value img (start_x, start_y)"
    unfolding eq numpy_flood_fill_component
    using component_target_mask[OF assms(2)] .
  show ?thesis
    using s connected_same_value_sound[of _ img "(start_x, start_y)"]
    by (auto simp: eq numpy_flood_fill_distinct)
qed



text \<open>
  An example for the theorems on images: a mask of one row and three columns, black, black,
  white, with the painter of a pen of width 1 that colours the end points of a line.
\<close>

definition example_mask :: "colour array2d" where
  "example_mask = \<lparr>rows = 1, cols = 3, cell = (\<lambda>p. if p = (2, 0) then white else black)\<rparr>"

definition thin_pen :: env where
  "thin_pen =
     \<lparr>drawPoint = (\<lambda>col t p img. setPixelColor img p col),
      drawLine = (\<lambda>col t p q img. setPixelColor (setPixelColor img p col) q col),
      random_color = (100, 150, 200),
      progress_canceled = (\<lambda>_. False)\<rparr>"

definition example_canvas :: canvas where
  "example_canvas = (blank_canvas 3 1)\<lparr>mask_pixmap := Some example_mask\<rparr>"

theorem flood_fill_connected_component_witness:
  "mask_pixmap example_canvas = Some example_mask \<and> inside example_mask (0, 0) \<and>
   set (snd (flood_fill example_canvas 0 0 (100, 150, 200))) =
     connected_same_value example_mask (0, 0) \<and>
   snd (flood_fill example_canvas 0 0 (100, 150, 200)) = [(0, 0), (1, 0)]"
proof -
  have m: "mask_pixmap example_canvas = Some example_mask"
    by (simp add: example_canvas_def)
  have i: "inside example_mask (0, 0)"
    by (simp add: inside_def example_mask_def)
  have r: "snd (flood_fill example_canvas 0 0 (100, 150, 200)) = [(0, 0), (1, 0)]"
    by code_simp
  show ?thesis
    using flood_fill_connected_component[OF m i, of "(100, 150, 200)"] m i r by blast
qed

section \<open>The label grid is rebuilt from the store\<close>

text \<open>
  \<open>update_pixel_labels\<close> changes the field \<open>pixel_labels\<close> only, and the new grid is a
  function of the grid's shape and of the dictionary of regions.
\<close>

definition grid_shape :: "(int \<times> int) option \<Rightarrow> int array2d option \<Rightarrow> (int \<times> int) option" where
  "grid_shape orig labels =
     (case labels of
        Some a \<Rightarrow> Some (rows a, cols a)
      | None \<Rightarrow> (case orig of Some (w, h) \<Rightarrow> Some (h, w) | None \<Rightarrow> None))"

definition relabel ::
  "(int \<times> int) option \<Rightarrow> int array2d option \<Rightarrow> (int \<times> segmentation) list \<Rightarrow> int array2d option" where
  "relabel orig labels segs =
     (case grid_shape orig labels of
        None \<Rightarrow> None
      | Some (r, cl) \<Rightarrow> Some (label_segmentations segs (zeros r cl 0)))"

text \<open>
  The label the rebuilt grid holds at a pixel: the key of the last region, in the order of
  the dictionary, whose pixel list has the pixel; \<open>0\<close> when no region has it.
\<close>

fun owner_from :: "int \<Rightarrow> (int \<times> segmentation) list \<Rightarrow> pixel \<Rightarrow> int" where
  "owner_from v [] p = v"
| "owner_from v ((k, s) # rest) p = owner_from (if p \<in> set (pixels s) then k else v) rest p"

definition owner :: "(int \<times> segmentation) list \<Rightarrow> pixel \<Rightarrow> int" where
  "owner segs p = owner_from 0 segs p"

lemma blank_eq_zeros: "a\<lparr>cell := (\<lambda>_. 0)\<rparr> = zeros (rows a) (cols a) (0::int)"
  by (cases a) (simp add: zeros_def)

lemma update_pixel_labels_eq:
  "update_pixel_labels c =
     c\<lparr>pixel_labels := relabel (original_pixmap c) (pixel_labels c) (segmentations c)\<rparr>"
  by (cases "pixel_labels c"; cases "original_pixmap c")
     (auto simp: update_pixel_labels_def initialize_pixel_labels_def relabel_def grid_shape_def
        blank_eq_zeros zeros_def Let_def)

lemma label_pixels_shape [simp]:
  "rows (label_pixels k ps a) = rows a" "cols (label_pixels k ps a) = cols a"
  by (induction k ps a rule: label_pixels.induct) simp_all

lemma label_segmentations_shape [simp]:
  "rows (label_segmentations segs a) = rows a" "cols (label_segmentations segs a) = cols a"
  by (induction segs a rule: label_segmentations.induct) simp_all

lemma inside_label_pixels [simp]: "inside (label_pixels k ps a) p = inside a p"
  by (simp add: inside_def)

lemma cell_label_pixels:
  "cell (label_pixels k ps a) p = (if p \<in> set ps \<and> inside a p then k else cell a p)"
proof (induction k ps a rule: label_pixels.induct)
  case (1 sid a)
  show ?case by simp
next
  case (2 sid x y ps a)
  show ?case
  proof (cases "0 \<le> y \<and> y < rows a \<and> 0 \<le> x \<and> x < cols a")
    case True
    then have "inside a (x, y)" by (simp add: inside_def)
    then show ?thesis
      using 2 True by (auto simp: cell_put inside_def)
  next
    case False
    then have "\<not> inside a (x, y)" by (auto simp: inside_def)
    then show ?thesis
      using 2 False by auto
  qed
qed

lemma cell_label_segmentations:
  "cell (label_segmentations segs a) p =
     (if inside a p then owner_from (cell a p) segs p else cell a p)"
proof (induction segs a rule: label_segmentations.induct)
  case (1 a)
  show ?case by simp
next
  case (2 sid s rest a)
  show ?case
    unfolding label_segmentations.simps "2.IH"
    by (simp add: cell_label_pixels)
qed

lemma grid_shape_relabel [simp]:
  "grid_shape orig (relabel orig labels segs) = grid_shape orig labels"
  by (auto simp: relabel_def grid_shape_def zeros_def split: option.splits)

lemma relabel_relabel [simp]:
  "relabel orig (relabel orig labels segs) segs' = relabel orig labels segs'"
  unfolding relabel_def[of orig "relabel orig labels segs"] grid_shape_relabel
  by (simp add: relabel_def)

lemma get_pixel_label_relabel:
  "get_pixel_label (c\<lparr>pixel_labels := relabel orig labels segs\<rparr>) x y =
     (case grid_shape orig labels of
        None \<Rightarrow> 0
      | Some (r, cl) \<Rightarrow>
          if 0 \<le> x \<and> x < cl \<and> 0 \<le> y \<and> y < r then owner segs (x, y) else 0)"
  by (auto simp: get_pixel_label_def relabel_def cell_label_segmentations owner_def zeros_def
        inside_def split: option.splits)

section \<open>What each helper changes\<close>

text \<open>
  The painting helpers change the mask and nothing else. The mask they leave is named, so
  that each helper is the update of one field.
\<close>

definition paint_pixels_mask :: "canvas \<Rightarrow> pixel list \<Rightarrow> colour \<Rightarrow> colour array2d option" where
  "paint_pixels_mask c ps col = mask_pixmap (paint_pixels c ps col)"

definition redraw_single_mask :: "canvas \<Rightarrow> segmentation \<Rightarrow> colour array2d option" where
  "redraw_single_mask c s = mask_pixmap (redraw_single_segmentation c s)"

definition draw_lines_mask ::
  "env \<Rightarrow> canvas \<Rightarrow> colour \<Rightarrow> pixel list \<Rightarrow> int \<Rightarrow> colour array2d option" where
  "draw_lines_mask e c col ps t = mask_pixmap (draw_lines_between_pixels e c col ps t)"

definition draw_at_mask :: "env \<Rightarrow> canvas \<Rightarrow> pixel option \<Rightarrow> colour array2d option" where
  "draw_at_mask e c pos = mask_pixmap (draw_at_position e c pos)"

definition flood_fill_mask :: "canvas \<Rightarrow> int \<Rightarrow> int \<Rightarrow> colour \<Rightarrow> colour array2d option" where
  "flood_fill_mask c x y col = mask_pixmap (fst (flood_fill c x y col))"

lemma paint_pixels_eq:
  "paint_pixels c ps col = c\<lparr>mask_pixmap := paint_pixels_mask c ps col\<rparr>"
  by (simp add: paint_pixels_mask_def paint_pixels_def split: option.splits)

lemma redraw_single_segmentation_eq:
  "redraw_single_segmentation c s = c\<lparr>mask_pixmap := redraw_single_mask c s\<rparr>"
  by (simp add: redraw_single_mask_def redraw_single_segmentation_def split: option.splits)

lemma draw_lines_between_pixels_eq:
  "draw_lines_between_pixels e c col ps t = c\<lparr>mask_pixmap := draw_lines_mask e c col ps t\<rparr>"
  by (simp add: draw_lines_mask_def draw_lines_between_pixels_def split: option.splits)

lemma draw_at_position_eq:
  "draw_at_position e c pos = c\<lparr>mask_pixmap := draw_at_mask e c pos\<rparr>"
  by (simp add: draw_at_mask_def draw_at_position_def split: option.splits)

lemma flood_fill_eq:
  "fst (flood_fill c x y col) = c\<lparr>mask_pixmap := flood_fill_mask c x y col\<rparr>"
  by (simp add: flood_fill_mask_def flood_fill_def Let_def split: option.splits)

lemmas helper_eqs =
  update_pixel_labels_eq paint_pixels_eq redraw_single_segmentation_eq
  draw_lines_between_pixels_eq draw_at_position_eq push_to_undo_stack_def
  set_segmentation_pixels_to_black_def redraw_segmentation_pixels_def
  draw_black_lines_between_pixels_def redraw_drawing_pixels_def

lemma max_key_in:
  assumes "d \<noteq> []"
  shows "max_key d \<in> fst ` set d" and "\<forall>k\<in>fst ` set d. k \<le> max_key d"
proof -
  have ne: "set (map fst d) \<noteq> {}" using assms by simp
  have "Max (set (map fst d)) \<in> set (map fst d)"
    by (rule Max_in[OF _ ne]) simp
  then show "max_key d \<in> fst ` set d" by (simp add: max_key_def)
  show "\<forall>k\<in>fst ` set d. k \<le> max_key d"
    by (simp add: max_key_def)
qed

lemma max_key_lookup:
  assumes "d \<noteq> []"
  shows "\<exists>v. map_of d (max_key d) = Some v"
  using max_key_in(1)[OF assms]
  by (cases "map_of d (max_key d)") (auto simp: map_of_eq_None_iff)

section \<open>Undo of a region-creation entry\<close>

text \<open>
  C10, as amended. When \<open>undo_last_operation\<close> pops an entry of kind \<open>'segmentation'\<close>
  and the dictionary of regions is not empty, the region it deletes is the one under the
  greatest key of the dictionary, whatever region the entry records, and the entry goes to
  the redo stack. When the dictionary is empty the entry is popped and dropped: the
  dictionary and the redo stack stay as they were.
\<close>

theorem undo_segmentation_entry:
  assumes "undo_stack c = Op_segmentation s # rest"
  shows "undo_stack (undo_last_operation e c) = rest \<and>
         (segmentations c \<noteq> [] \<longrightarrow>
            max_key (segmentations c) \<in> fst ` set (segmentations c) \<and>
            (\<forall>k\<in>fst ` set (segmentations c). k \<le> max_key (segmentations c)) \<and>
            segmentations (undo_last_operation e c) =
              AList.delete (max_key (segmentations c)) (segmentations c) \<and>
            redo_stack (undo_last_operation e c) = Op_segmentation s # redo_stack c) \<and>
         (segmentations c = [] \<longrightarrow>
            segmentations (undo_last_operation e c) = [] \<and>
            redo_stack (undo_last_operation e c) = redo_stack c)"
proof (cases "segmentations c = []")
  case True
  then show ?thesis
    using assms by (simp add: undo_last_operation_def helper_eqs)
next
  case False
  obtain v where v: "map_of (segmentations c) (max_key (segmentations c)) = Some v"
    using max_key_lookup[OF False] by blast
  show ?thesis
    using assms False v max_key_in[OF False]
    by (simp add: undo_last_operation_def helper_eqs Let_def)
qed

definition region_a :: segmentation where
  "region_a = \<lparr>seg_id = 1, color = (100, 150, 200), pixels = [(0, 0)], border_pixels = [(0, 0)]\<rparr>"

definition region_b :: segmentation where
  "region_b = \<lparr>seg_id = 2, color = (100, 150, 200), pixels = [(2, 0)], border_pixels = [(2, 0)]\<rparr>"

definition stale_entry_canvas :: canvas where
  "stale_entry_canvas =
     (blank_canvas 3 1)\<lparr>segmentations := [(1, region_a), (2, region_b)], next_seg_id := 3,
                        undo_stack := [Op_segmentation region_a]\<rparr>"

definition empty_store_canvas :: canvas where
  "empty_store_canvas = (blank_canvas 3 1)\<lparr>undo_stack := [Op_segmentation region_a]\<rparr>"

theorem undo_segmentation_entry_witness:
  "undo_stack stale_entry_canvas = Op_segmentation region_a # [] \<and>
   seg_id region_a = 1 \<and>
   max_key (segmentations stale_entry_canvas) = 2 \<and>
   segmentations (undo_last_operation thin_pen stale_entry_canvas) = [(1, region_a)] \<and>
   redo_stack (undo_last_operation thin_pen stale_entry_canvas) = [Op_segmentation region_a] \<and>
   undo_stack (undo_last_operation thin_pen stale_entry_canvas) = []"
proof -
  have u: "undo_stack stale_entry_canvas = Op_segmentation region_a # []"
    by (simp add: stale_entry_canvas_def)
  have ne: "segmentations stale_entry_canvas \<noteq> []"
    by (simp add: stale_entry_canvas_def)
  have m: "max_key (segmentations stale_entry_canvas) = 2"
    by (simp add: stale_entry_canvas_def max_key_def)
  have d: "AList.delete 2 (segmentations stale_entry_canvas) = [(1, region_a)]"
    by (simp add: stale_entry_canvas_def)
  have r: "redo_stack stale_entry_canvas = []"
    by (simp add: stale_entry_canvas_def blank_canvas_def)
  show ?thesis
    using undo_segmentation_entry[OF u, of thin_pen] ne u m d r
    by (simp add: region_a_def)
qed

theorem undo_segmentation_empty_store_counterexample:
  "undo_stack empty_store_canvas = [Op_segmentation region_a] \<and>
   segmentations empty_store_canvas = [] \<and>
   undo_stack (undo_last_operation thin_pen empty_store_canvas) = [] \<and>
   redo_stack (undo_last_operation thin_pen empty_store_canvas) \<noteq>
     Op_segmentation region_a # redo_stack empty_store_canvas \<and>
   redo_stack (undo_last_operation thin_pen empty_store_canvas) = []"
  by (simp add: empty_store_canvas_def blank_canvas_def undo_last_operation_def helper_eqs)

section \<open>The selection after an undo\<close>

definition ids_of :: "error + canvas \<Rightarrow> (int list \<times> int list) option" where
  "ids_of r = (case r of Inl _ \<Rightarrow> None
     | Inr c \<Rightarrow> Some (map fst (segmentations c), selected_segmentations c))"

definition select_then_undo :: "event list" where
  "select_then_undo =
     [Set_mode Mode_paint, Mouse_press (Some (0, 0)) False,
      Set_mode Mode_select, Mouse_press (Some (0, 0)) False, Undo]"

text \<open>
  C3. On a blank canvas of two pixels: fill at \<open>(0, 0)\<close> (region 1 takes both pixels),
  select region 1 by a click in select mode, undo. The region is gone from the dictionary
  and its id is still in \<open>selected_segmentations\<close>: \<open>undo_last_operation\<close> never touches
  the selection, where \<open>remove_segmentation\<close> takes the id out and
  \<open>merge_selected_segmentations\<close> clears the set.
\<close>

theorem undo_leaves_stale_selection:
  "ids_of (run thin_pen (blank_canvas 2 1) (butlast select_then_undo)) = Some ([1], [1]) \<and>
   ids_of (run thin_pen (blank_canvas 2 1) select_then_undo) = Some ([], [1])"
  by code_simp

section \<open>Merge\<close>

lemma merge_refused:
  "length (selected_segmentations c) < 2 \<Longrightarrow> merge_selected_segmentations e c = c"
  by (simp add: merge_selected_segmentations_def)

lemma merge_empty:
  "concat (map pixels (selected_present c)) = [] \<Longrightarrow> merge_selected_segmentations e c = c"
  by (simp add: merge_selected_segmentations_def Let_def)

definition merged_region :: "env \<Rightarrow> canvas \<Rightarrow> segmentation" where
  "merged_region e c =
     \<lparr>seg_id = next_seg_id c, color = random_color e,
      pixels = concat (map pixels (selected_present c)),
      border_pixels = concat (map border_pixels (selected_present c))\<rparr>"

lemma merge_performed:
  assumes "2 \<le> length (selected_segmentations c)"
    and "concat (map pixels (selected_present c)) \<noteq> []"
  shows "segmentations (merge_selected_segmentations e c) =
           AList.update (next_seg_id c) (merged_region e c)
             (fold AList.delete (selected_segmentations c) (segmentations c))"
    and "next_seg_id (merge_selected_segmentations e c) = next_seg_id c + 1"
    and "selected_segmentations (merge_selected_segmentations e c) = []"
    and "undo_stack (merge_selected_segmentations e c) =
           Op_merge (selected_present c) (merged_region e c) # undo_stack c"
    and "redo_stack (merge_selected_segmentations e c) = []"
    and "original_pixmap (merge_selected_segmentations e c) = original_pixmap c"
    and "pixel_labels (merge_selected_segmentations e c) =
           relabel (original_pixmap c) (pixel_labels c)
             (AList.update (next_seg_id c) (merged_region e c)
               (fold AList.delete (selected_segmentations c) (segmentations c)))"
  using assms
  by (simp_all add: merge_selected_segmentations_def Let_def helper_eqs merged_region_def
        Segmentation_def del: concat_eq_Nil_conv)

text \<open>
  C8. A merge with fewer than two selected ids returns the canvas unchanged. With exactly
  two selected ids \<open>a\<close> and \<open>b\<close>, both keys of the dictionary, a counter \<open>next_seg_id\<close>
  that is not yet a key, and regions that are not both without pixels (a stored region
  always has a pixel), the merge puts one new region under the key \<open>next_seg_id\<close>, with
  \<open>len(A.pixels) + len(B.pixels)\<close> pixels, takes the keys \<open>a\<close> and \<open>b\<close> out, leaves every
  other key, and advances the counter.
\<close>

theorem merge_two_regions:
  "(length (selected_segmentations c) < 2 \<longrightarrow> merge_selected_segmentations e c = c) \<and>
   (selected_segmentations c = [a, b] \<and> a \<noteq> b \<and>
    map_of (segmentations c) a = Some A \<and> map_of (segmentations c) b = Some B \<and>
    next_seg_id c \<notin> fst ` set (segmentations c) \<and> pixels A @ pixels B \<noteq> [] \<longrightarrow>
      (\<exists>M. map_of (segmentations (merge_selected_segmentations e c)) (next_seg_id c) = Some M \<and>
           seg_id M = next_seg_id c \<and>
           pixels M = pixels A @ pixels B \<and>
           length (pixels M) = length (pixels A) + length (pixels B) \<and>
           map_of (segmentations (merge_selected_segmentations e c)) a = None \<and>
           map_of (segmentations (merge_selected_segmentations e c)) b = None \<and>
           fst ` set (segmentations (merge_selected_segmentations e c)) =
             (fst ` set (segmentations c) - {a, b}) \<union> {next_seg_id c} \<and>
           next_seg_id (merge_selected_segmentations e c) = next_seg_id c + 1))"
proof (intro conjI impI)
  show "length (selected_segmentations c) < 2 \<Longrightarrow> merge_selected_segmentations e c = c"
    by (rule merge_refused)
next
  assume h: "selected_segmentations c = [a, b] \<and> a \<noteq> b \<and>
    map_of (segmentations c) a = Some A \<and> map_of (segmentations c) b = Some B \<and>
    next_seg_id c \<notin> fst ` set (segmentations c) \<and> pixels A @ pixels B \<noteq> []"
  let ?n = "next_seg_id c" and ?c' = "merge_selected_segmentations e c"
  have sp: "selected_present c = [A, B]"
    using h by (simp add: selected_present_def)
  have two: "2 \<le> length (selected_segmentations c)"
    using h by simp
  have ne: "concat (map pixels (selected_present c)) \<noteq> []"
    using h sp by simp
  have segs: "segmentations ?c' =
      AList.update ?n (merged_region e c) (AList.delete b (AList.delete a (segmentations c)))"
    using merge_performed(1)[OF two ne, of e] h by simp
  have ak: "a \<in> fst ` set (segmentations c)" and bk: "b \<in> fst ` set (segmentations c)"
    using h by (auto dest: map_of_SomeD intro: rev_image_eqI)
  then have an: "a \<noteq> ?n" and bn: "b \<noteq> ?n"
    using h by blast+
  have M: "map_of (segmentations ?c') ?n = Some (merged_region e c)"
    by (simp add: segs update_conv')
  have a0: "map_of (segmentations ?c') a = None"
    using an by (simp add: segs update_conv' delete_conv')
  have b0: "map_of (segmentations ?c') b = None"
    using bn by (simp add: segs update_conv' delete_conv')
  have keys: "fst ` set (segmentations ?c') = (fst ` set (segmentations c) - {a, b}) \<union> {?n}"
  proof -
    have "fst ` set (AList.delete b (AList.delete a (segmentations c))) =
        fst ` set (segmentations c) - {a, b}"
      using delete_keys[of b "AList.delete a (segmentations c)"]
        delete_keys[of a "segmentations c"]
      by (metis (no_types, lifting) Diff_insert Diff_insert2 list.set_map set_removeAll)
    then show ?thesis
      by (auto simp: segs dom_update)
  qed
  show "\<exists>M. map_of (segmentations ?c') ?n = Some M \<and> seg_id M = ?n \<and>
      pixels M = pixels A @ pixels B \<and>
      length (pixels M) = length (pixels A) + length (pixels B) \<and>
      map_of (segmentations ?c') a = None \<and> map_of (segmentations ?c') b = None \<and>
      fst ` set (segmentations ?c') = (fst ` set (segmentations c) - {a, b}) \<union> {?n} \<and>
      next_seg_id ?c' = ?n + 1"
    using M a0 b0 keys merge_performed(2)[OF two ne, of e] sp
    by (intro exI[of _ "merged_region e c"]) (simp add: merged_region_def)
qed

text \<open>
  C9. When a merge is performed (two or more ids selected, and the selected regions found
  in the dictionary have a pixel between them), the border list of the new region is the
  concatenation of the border lists the selected regions had in the dictionary at that
  moment, in the order in which the selection is iterated; nothing is recomputed. The
  history entry records the same old regions and the new one.
\<close>

theorem merge_concatenates_borders:
  assumes "2 \<le> length (selected_segmentations c)"
    and "concat (map pixels (selected_present c)) \<noteq> []"
  shows "\<exists>M. map_of (segmentations (merge_selected_segmentations e c)) (next_seg_id c) = Some M \<and>
           border_pixels M = concat (map border_pixels (selected_present c)) \<and>
           pixels M = concat (map pixels (selected_present c)) \<and>
           undo_stack (merge_selected_segmentations e c) =
             Op_merge (selected_present c) M # undo_stack c"
  using merge_performed(1,4)[OF assms, of e]
  by (intro exI[of _ "merged_region e c"]) (simp add: update_conv' merged_region_def)

text \<open>The canvas after a run of events (the start canvas, had the run raised).\<close>

definition after :: "env \<Rightarrow> canvas \<Rightarrow> event list \<Rightarrow> canvas" where
  "after e c evs = (case run e c evs of Inr c' \<Rightarrow> c' | Inl _ \<Rightarrow> c)"

text \<open>
  Two examples, each a run from a blank canvas with a pen of width 1. In the first, on three
  pixels in a row, a white dot at \<open>(1, 0)\<close> separates two fills, which give region 1 at
  \<open>(0, 0)\<close> and region 2 at \<open>(2, 0)\<close>; both are then ticked in the side panel. In the
  second, on two pixels, region 1 is filled at \<open>(0, 0)\<close> while \<open>(1, 0)\<close> is white; the
  white dot is then erased and \<open>(1, 0)\<close> filled as region 2, next to region 1.
\<close>

definition two_regions_events :: "event list" where
  "two_regions_events =
     [Pen_thickness 1, Set_mode Mode_drawing, Mouse_press (Some (1, 0)) False, Mouse_release,
      Set_mode Mode_paint, Mouse_press (Some (0, 0)) False, Mouse_press (Some (2, 0)) False,
      Toggle_checkbox 1 True, Toggle_checkbox 2 True]"

definition two_regions_canvas :: canvas where
  "two_regions_canvas = after thin_pen (blank_canvas 3 1) two_regions_events"

definition region_c :: segmentation where
  "region_c = \<lparr>seg_id = 2, color = (100, 150, 200), pixels = [(1, 0)], border_pixels = [(1, 0)]\<rparr>"

definition adjacent_regions_events :: "event list" where
  "adjacent_regions_events =
     [Pen_thickness 1, Set_mode Mode_drawing, Mouse_press (Some (1, 0)) False, Mouse_release,
      Set_mode Mode_paint, Mouse_press (Some (0, 0)) False,
      Set_mode Mode_remove, Mouse_press (Some (1, 0)) False, Mouse_release,
      Set_mode Mode_paint, Mouse_press (Some (1, 0)) False,
      Toggle_checkbox 1 True, Toggle_checkbox 2 True]"

definition adjacent_regions_canvas :: canvas where
  "adjacent_regions_canvas = after thin_pen (blank_canvas 2 1) adjacent_regions_events"

lemma two_regions_canvas_facts:
  "selected_segmentations two_regions_canvas = [1, 2]"
  "segmentations two_regions_canvas = [(1, region_a), (2, region_b)]"
  "next_seg_id two_regions_canvas = 3"
  "original_pixmap two_regions_canvas = Some (3, 1)"
  by code_simp+

lemma adjacent_regions_canvas_facts:
  "selected_segmentations adjacent_regions_canvas = [1, 2]"
  "segmentations adjacent_regions_canvas = [(1, region_a), (2, region_c)]"
  "next_seg_id adjacent_regions_canvas = 3"
  by code_simp+

theorem merge_two_regions_witness:
  "selected_segmentations two_regions_canvas = [1, 2] \<and>
   map_of (segmentations two_regions_canvas) 1 = Some region_a \<and>
   map_of (segmentations two_regions_canvas) 2 = Some region_b \<and>
   next_seg_id two_regions_canvas = 3 \<and>
   3 \<notin> fst ` set (segmentations two_regions_canvas) \<and>
   (\<exists>M. map_of (segmentations (merge_selected_segmentations thin_pen two_regions_canvas)) 3 = Some M \<and>
        seg_id M = 3 \<and> pixels M = [(0, 0), (2, 0)] \<and> length (pixels M) = 2) \<and>
   map_of (segmentations (merge_selected_segmentations thin_pen two_regions_canvas)) 1 = None \<and>
   map_of (segmentations (merge_selected_segmentations thin_pen two_regions_canvas)) 2 = None \<and>
   fst ` set (segmentations (merge_selected_segmentations thin_pen two_regions_canvas)) = {3} \<and>
   next_seg_id (merge_selected_segmentations thin_pen two_regions_canvas) = 4 \<and>
   merge_selected_segmentations thin_pen (blank_canvas 3 1) = blank_canvas 3 1"
proof -
  note f = two_regions_canvas_facts
  let ?c = two_regions_canvas
  let ?c' = "merge_selected_segmentations thin_pen two_regions_canvas"
  have a: "map_of (segmentations ?c) 1 = Some region_a"
    and b: "map_of (segmentations ?c) 2 = Some region_b"
    and k: "3 \<notin> fst ` set (segmentations ?c)"
    by (simp_all add: f)
  have pre: "selected_segmentations ?c = [1, 2] \<and> (1::int) \<noteq> 2 \<and>
      map_of (segmentations ?c) 1 = Some region_a \<and> map_of (segmentations ?c) 2 = Some region_b \<and>
      next_seg_id ?c \<notin> fst ` set (segmentations ?c) \<and> pixels region_a @ pixels region_b \<noteq> []"
    using a b k by (simp add: f(1,3) region_a_def)
  obtain M where M: "map_of (segmentations ?c') (next_seg_id ?c) = Some M"
      "seg_id M = next_seg_id ?c" "pixels M = pixels region_a @ pixels region_b"
      "map_of (segmentations ?c') 1 = None" "map_of (segmentations ?c') 2 = None"
      "fst ` set (segmentations ?c') = (fst ` set (segmentations ?c) - {1, 2}) \<union> {next_seg_id ?c}"
      "next_seg_id ?c' = next_seg_id ?c + 1"
    using mp[OF conjunct2[OF merge_two_regions[of ?c thin_pen 1 2 region_a region_b]] pre]
    by blast
  have M': "map_of (segmentations ?c') 3 = Some M \<and> seg_id M = 3 \<and>
      pixels M = [(0, 0), (2, 0)] \<and> length (pixels M) = 2"
    using M(1,2,3) by (simp add: f(3) region_a_def region_b_def)
  have keys: "fst ` set (segmentations ?c') = {3}"
    using M(6) by (simp add: f(2,3))
  have n: "next_seg_id ?c' = 4"
    using M(7) by (simp add: f(3))
  have l: "length (selected_segmentations (blank_canvas 3 1)) < 2"
    by (simp add: blank_canvas_def)
  have r: "merge_selected_segmentations thin_pen (blank_canvas 3 1) = blank_canvas 3 1"
    using mp[OF conjunct1[OF merge_two_regions[of "blank_canvas 3 1" thin_pen]] l] .
  show ?thesis
    using f(1,3) a b k M' M(4,5) keys n r by blast
qed

theorem merge_concatenates_borders_witness:
  "2 \<le> length (selected_segmentations adjacent_regions_canvas) \<and>
   selected_present adjacent_regions_canvas = [region_a, region_c] \<and>
   (\<exists>M. map_of (segmentations (merge_selected_segmentations thin_pen adjacent_regions_canvas)) 3
          = Some M \<and>
        border_pixels M = [(0, 0), (1, 0)] \<and> pixels M = [(0, 0), (1, 0)] \<and>
        undo_stack (merge_selected_segmentations thin_pen adjacent_regions_canvas) =
          Op_merge [region_a, region_c] M # undo_stack adjacent_regions_canvas)"
proof -
  note f = adjacent_regions_canvas_facts
  have sp: "selected_present adjacent_regions_canvas = [region_a, region_c]"
    by (simp add: selected_present_def f)
  have two: "2 \<le> length (selected_segmentations adjacent_regions_canvas)"
    by (simp add: f)
  have ne: "concat (map pixels (selected_present adjacent_regions_canvas)) \<noteq> []"
    by (simp add: sp region_a_def)
  show ?thesis
    using merge_concatenates_borders[OF two ne, of thin_pen] two sp
    by (simp add: f(3) region_a_def region_c_def)
qed

section \<open>Borders\<close>









section \<open>The grid follows the store\<close>

text \<open>
  The grid follows the store when every cell inside the grid holds the \<open>owner\<close> of its
  pixel. (Before the first update there is no grid, and so no cell.)
\<close>

definition follows :: "(int \<times> segmentation) list \<Rightarrow> int array2d option \<Rightarrow> bool" where
  "follows segs labels \<longleftrightarrow>
     (case labels of None \<Rightarrow> True | Some g \<Rightarrow> \<forall>p. inside g p \<longrightarrow> cell g p = owner segs p)"

definition labels_follow_store :: "canvas \<Rightarrow> bool" where
  "labels_follow_store c \<longleftrightarrow> follows (segmentations c) (pixel_labels c)"

lemma follows_relabel [simp]: "follows segs (relabel orig labels segs)"
  by (auto simp: follows_def relabel_def cell_label_segmentations owner_def zeros_def inside_def
        split: option.splits)

lemma owner_from_cases:
  "owner_from v segs p = v \<or>
   (\<exists>s. (owner_from v segs p, s) \<in> set segs \<and> p \<in> set (pixels s))"
proof (induction segs arbitrary: v)
  case Nil
  show ?case by simp
next
  case (Cons a segs)
  obtain k s where a: "a = (k, s)" by (cases a)
  show ?case
  proof (cases "p \<in> set (pixels s)")
    case True
    then show ?thesis
      using Cons.IH[of k] by (auto simp: a)
  next
    case False
    then show ?thesis
      using Cons.IH[of v] by (auto simp: a)
  qed
qed

lemma owner_from_none:
  "\<forall>(k, s)\<in>set segs. p \<notin> set (pixels s) \<Longrightarrow> owner_from v segs p = v"
  by (induction segs arbitrary: v) auto

lemma owner_from_unique:
  assumes "\<exists>s. (k, s) \<in> set segs \<and> p \<in> set (pixels s)"
    and "\<forall>(k', s')\<in>set segs. p \<in> set (pixels s') \<longrightarrow> k' = k"
  shows "owner_from v segs p = k"
  using assms
proof (induction segs arbitrary: v)
  case Nil
  then show ?case by simp
next
  case (Cons a segs)
  obtain k' s' where a: "a = (k', s')" by (cases a)
  have tl: "\<forall>(k2, s2)\<in>set segs. p \<in> set (pixels s2) \<longrightarrow> k2 = k"
    using Cons.prems(2) by auto
  show ?case
  proof (cases "\<exists>s. (k, s) \<in> set segs \<and> p \<in> set (pixels s)")
    case True
    show ?thesis
      using Cons.IH[OF True tl] by (simp add: a)
  next
    case False
    then have none: "\<forall>(k2, s2)\<in>set segs. p \<notin> set (pixels s2)"
      using tl by fastforce
    have here: "k' = k \<and> p \<in> set (pixels s')"
      using Cons.prems(1) False by (auto simp: a)
    show ?thesis
      using owner_from_none[OF none] here by (simp add: a)
  qed
qed

lemma owner_nonzero:
  "owner segs p \<noteq> 0 \<Longrightarrow> \<exists>s. (owner segs p, s) \<in> set segs \<and> p \<in> set (pixels s)"
  using owner_from_cases[of 0 segs p] by (auto simp: owner_def)

lemma owner_zero_iff:
  assumes "\<forall>(k, s)\<in>set segs. k \<noteq> 0"
  shows "(owner segs p = 0) = (\<forall>(k, s)\<in>set segs. p \<notin> set (pixels s))"
proof
  assume z: "owner segs p = 0"
  show "\<forall>(k, s)\<in>set segs. p \<notin> set (pixels s)"
  proof (rule ccontr)
    assume "\<not> (\<forall>(k, s)\<in>set segs. p \<notin> set (pixels s))"
    then have ex: "\<exists>(k, s)\<in>set segs. p \<in> set (pixels s)" by blast
    have "owner_from v segs p \<noteq> 0" if "\<exists>(k, s)\<in>set segs. p \<in> set (pixels s)"
      and "\<forall>(k, s)\<in>set segs. k \<noteq> 0" for v segs
      using that
    proof (induction segs arbitrary: v)
      case Nil
      then show ?case by simp
    next
      case (Cons a segs)
      obtain k s where a: "a = (k, s)" by (cases a)
      show ?case
      proof (cases "\<exists>(k2, s2)\<in>set segs. p \<in> set (pixels s2)")
        case True
        then show ?thesis using Cons.IH Cons.prems(2) by (auto simp: a)
      next
        case False
        then have none: "\<forall>(k2, s2)\<in>set segs. p \<notin> set (pixels s2)" by blast
        have "p \<in> set (pixels s)" using Cons.prems(1) False by (auto simp: a)
        moreover have "k \<noteq> 0" using Cons.prems(2) by (auto simp: a)
        ultimately show ?thesis
          using owner_from_none[OF none] by (simp add: a)
      qed
    qed
    then show False using ex assms z by (simp add: owner_def)
  qed
next
  assume "\<forall>(k, s)\<in>set segs. p \<notin> set (pixels s)"
  then show "owner segs p = 0"
    using owner_from_none[of segs p 0] by (simp add: owner_def)
qed

lemma owner_iff_member:
  assumes d: "distinct (map fst segs)" and nz: "\<forall>(k, s)\<in>set segs. k \<noteq> 0"
    and u: "\<forall>(k, s)\<in>set segs. \<forall>(k', s')\<in>set segs.
              p \<in> set (pixels s) \<and> p \<in> set (pixels s') \<longrightarrow> k = k'"
    and m: "(k, s) \<in> set segs"
  shows "(owner segs p = k) = (p \<in> set (pixels s))"
proof
  assume o: "owner segs p = k"
  have "k \<noteq> 0" using nz m by auto
  then obtain s' where s': "(k, s') \<in> set segs" "p \<in> set (pixels s')"
    using owner_nonzero[of segs p] o by auto
  have "s' = s"
    using d m s'(1) by (meson eq_key_imp_eq_value)
  then show "p \<in> set (pixels s)" using s'(2) by simp
next
  assume p: "p \<in> set (pixels s)"
  have "\<forall>(k', s')\<in>set segs. p \<in> set (pixels s') \<longrightarrow> k' = k"
    using u m p by blast
  moreover have "\<exists>s. (k, s) \<in> set segs \<and> p \<in> set (pixels s)"
    using m p by blast
  ultimately show "owner segs p = k"
    using owner_from_unique[of k segs p 0] by (simp add: owner_def)
qed

lemma follows_update_pixel_labels [simp]: "labels_follow_store (update_pixel_labels c)"
  by (simp add: labels_follow_store_def update_pixel_labels_eq)

lemma follows_set_mode:
  "labels_follow_store c \<Longrightarrow> labels_follow_store (set_mode c m)"
  by (simp add: set_mode_def clear_selection_def labels_follow_store_def Let_def)

lemma follows_start_drawing:
  "labels_follow_store c \<Longrightarrow> labels_follow_store (start_drawing e c pos)"
  by (simp add: start_drawing_def helper_eqs labels_follow_store_def)

lemma follows_select:
  "labels_follow_store c \<Longrightarrow> labels_follow_store (select_region_at_position c pos shift)"
  by (simp add: select_region_at_position_def labels_follow_store_def
        split: option.splits prod.splits)

lemma follows_toggle:
  "labels_follow_store c \<Longrightarrow> labels_follow_store (toggle_segmentation_selection c sid checked)"
  by (simp add: toggle_segmentation_selection_def labels_follow_store_def)

lemma follows_remove_at: "labels_follow_store (remove_at c s)"
  by (simp add: remove_at_def update_pixel_labels_eq labels_follow_store_def)

lemma draw_line_fields:
  "segmentations (draw_line e c p q) = segmentations c"
  "pixel_labels (draw_line e c p q) = pixel_labels c"
  by (simp_all add: draw_line_def split: option.splits prod.splits)

lemma follows_move:
  "labels_follow_store c \<Longrightarrow> labels_follow_store (mouseMoveEvent e c pos)"
  using follows_remove_at
  by (simp add: mouseMoveEvent_def labels_follow_store_def draw_line_fields
        split: option.splits prod.splits)

lemma follows_release:
  "labels_follow_store c \<Longrightarrow> labels_follow_store (mouseReleaseEvent c)"
  by (simp add: mouseReleaseEvent_def labels_follow_store_def Let_def push_to_undo_stack_def
        split: option.splits)

lemma follows_merge:
  "labels_follow_store c \<Longrightarrow> labels_follow_store (merge_selected_segmentations e c)"
  by (simp add: merge_selected_segmentations_def labels_follow_store_def Let_def helper_eqs
        del: concat_eq_Nil_conv)

lemma follows_undo:
  "labels_follow_store c \<Longrightarrow> labels_follow_store (undo_last_operation e c)"
  by (simp add: undo_last_operation_def Let_def split: list.splits)

lemma follows_redo:
  "labels_follow_store c \<Longrightarrow> labels_follow_store (redo_last_operation e c)"
  by (simp add: redo_last_operation_def Let_def split: list.splits)

lemma follows_flood_fill_at_position:
  "labels_follow_store c \<Longrightarrow> flood_fill_at_position e c pos = Inr c' \<Longrightarrow> labels_follow_store c'"
  by (auto simp: flood_fill_at_position_def case_prod_beta flood_fill_eq Let_def
        labels_follow_store_def update_pixel_labels_eq
        split: option.splits if_splits sum.splits)

lemma follows_press:
  "labels_follow_store c \<Longrightarrow> mousePressEvent e c pos shift = Inr c' \<Longrightarrow> labels_follow_store c'"
  using follows_flood_fill_at_position[of c e pos c'] follows_start_drawing[of c e pos]
    follows_select[of c pos shift] follows_remove_at
  by (auto simp: mousePressEvent_def labels_follow_store_def
        split: if_splits option.splits prod.splits)

lemma follows_step:
  "labels_follow_store c \<Longrightarrow> step e c ev = Inr c' \<Longrightarrow> labels_follow_store c'"
  using follows_set_mode follows_press follows_move follows_release follows_toggle
    follows_merge follows_undo follows_redo
  by (cases ev) (auto simp: clear_selection_def labels_follow_store_def)

lemma follows_run:
  "labels_follow_store c \<Longrightarrow> run e c evs = Inr c' \<Longrightarrow> labels_follow_store c'"
proof (induction evs arbitrary: c)
  case Nil
  then show ?case by simp
next
  case (Cons ev evs)
  then obtain c1 where c1: "step e c ev = Inr c1" "run e c1 evs = Inr c'"
    by (auto split: sum.splits)
  show ?case
    using Cons.IH[OF follows_step[OF Cons.prems(1) c1(1)] c1(2)] .
qed

definition returns :: "error + canvas \<Rightarrow> bool" where
  "returns r = (case r of Inr _ \<Rightarrow> True | Inl _ \<Rightarrow> False)"

lemma run_after: "returns (run e c evs) \<Longrightarrow> run e c evs = Inr (after e c evs)"
  by (simp add: returns_def after_def split: sum.splits)

text \<open>
  C1, as amended. Start from a canvas whose grid follows the store (a blank canvas does)
  and let any events run: fills, strokes, removals, merges, undo, redo, selections. Then at
  every coordinate inside the grid, the grid holds the key of the last region, in the order
  of the store, whose pixel list has the coordinate, and \<open>0\<close> when no region has it. So a
  label other than \<open>0\<close> is the key of a stored region that has the pixel; with no key
  \<open>0\<close> in the store, the grid holds \<open>0\<close> exactly where no stored region has the pixel;
  and when, besides, no two stored regions have the pixel, the grid holds a region's key
  exactly when the pixel is in that region's list.
\<close>

theorem grid_follows_store:
  assumes "labels_follow_store c" and "run e c evs = Inr c'"
    and "pixel_labels c' = Some g" and "inside g p"
  shows "cell g p = owner (segmentations c') p \<and>
         (cell g p \<noteq> 0 \<longrightarrow> (\<exists>s. (cell g p, s) \<in> set (segmentations c') \<and> p \<in> set (pixels s))) \<and>
         ((\<forall>(k, s)\<in>set (segmentations c'). k \<noteq> 0) \<longrightarrow>
            (cell g p = 0) = (\<forall>(k, s)\<in>set (segmentations c'). p \<notin> set (pixels s))) \<and>
         (distinct (map fst (segmentations c')) \<and> (\<forall>(k, s)\<in>set (segmentations c'). k \<noteq> 0) \<and>
          (\<forall>(k, s)\<in>set (segmentations c'). \<forall>(k', s')\<in>set (segmentations c').
              p \<in> set (pixels s) \<and> p \<in> set (pixels s') \<longrightarrow> k = k') \<longrightarrow>
            (\<forall>(k, s)\<in>set (segmentations c'). (cell g p = k) = (p \<in> set (pixels s))))"
proof -
  have "labels_follow_store c'"
    using follows_run[OF assms(1,2)] .
  then have o: "cell g p = owner (segmentations c') p"
    using assms(3,4) by (simp add: labels_follow_store_def follows_def del: split_paired_All)
  show ?thesis
    unfolding o
    using owner_nonzero[of "segmentations c'" p] owner_zero_iff[of "segmentations c'" p]
      owner_iff_member[of "segmentations c'" p]
    by (intro conjI impI) auto
qed

text \<open>
  Regions can come to share a pixel. On a blank canvas of two pixels, with a pen of width 1:
  a white dot at \<open>(1, 0)\<close>; a fill at \<open>(0, 0)\<close>, which makes region 1 of the pixel
  \<open>(0, 0)\<close>; an erasing stroke from \<open>(1, 0)\<close> to \<open>(0, 0)\<close>, which paints both pixels of
  the mask black and leaves region 1 as it is; a fill at \<open>(0, 0)\<close>, which makes region 2
  of both pixels. The grid then holds 2 at \<open>(0, 0)\<close>, a pixel of region 1.
\<close>

definition overlap_events :: "event list" where
  "overlap_events =
     [Pen_thickness 1, Set_mode Mode_drawing, Mouse_press (Some (1, 0)) False, Mouse_release,
      Set_mode Mode_paint, Mouse_press (Some (0, 0)) False,
      Set_mode Mode_remove, Mouse_press (Some (1, 0)) False, Mouse_move (Some (0, 0)),
      Mouse_release,
      Set_mode Mode_paint, Mouse_press (Some (0, 0)) False]"

definition overlap_canvas :: canvas where
  "overlap_canvas = after thin_pen (blank_canvas 2 1) overlap_events"

definition region_over :: segmentation where
  "region_over =
     \<lparr>seg_id = 2, color = (100, 150, 200), pixels = [(0, 0), (1, 0)], border_pixels = []\<rparr>"

lemma overlap_canvas_facts:
  "returns (run thin_pen (blank_canvas 2 1) overlap_events)"
  "segmentations overlap_canvas = [(1, region_a), (2, region_over)]"
  "get_pixel_label overlap_canvas 0 0 = 2"
  "case pixel_labels overlap_canvas of None \<Rightarrow> False
   | Some g \<Rightarrow> inside g (0, 0) \<and> inside g (1, 0) \<and> cell g (0, 0) = 2 \<and> cell g (1, 0) = 2"
  by code_simp+

theorem grid_region_consistency_counterexample:
  "run thin_pen (blank_canvas 2 1) overlap_events = Inr overlap_canvas \<and>
   map_of (segmentations overlap_canvas) 1 = Some region_a \<and>
   (0, 0) \<in> set (pixels region_a) \<and>
   get_pixel_label overlap_canvas 0 0 = 2 \<and>
   \<not> (get_pixel_label overlap_canvas 0 0 = 1 \<longleftrightarrow> (0, 0) \<in> set (pixels region_a))"
  using run_after[OF overlap_canvas_facts(1)] overlap_canvas_facts(2,3)
  by (simp add: overlap_canvas_def region_a_def)

theorem grid_follows_store_witness:
  "labels_follow_store (blank_canvas 2 1) \<and>
   run thin_pen (blank_canvas 2 1) overlap_events = Inr overlap_canvas \<and>
   (\<exists>g. pixel_labels overlap_canvas = Some g \<and> inside g (1, 0) \<and>
        cell g (1, 0) = owner (segmentations overlap_canvas) (1, 0) \<and>
        cell g (1, 0) = 2 \<and> (1, 0) \<in> set (pixels region_over) \<and>
        (cell g (1, 0) = 1) = ((1, 0) \<in> set (pixels region_a)))"
proof -
  have b: "labels_follow_store (blank_canvas 2 1)"
    by (simp add: labels_follow_store_def follows_def blank_canvas_def)
  have r: "run thin_pen (blank_canvas 2 1) overlap_events = Inr overlap_canvas"
    using run_after[OF overlap_canvas_facts(1)] by (simp add: overlap_canvas_def)
  obtain g where g: "pixel_labels overlap_canvas = Some g" "inside g (1, 0)" "cell g (1, 0) = 2"
    using overlap_canvas_facts(4) by (cases "pixel_labels overlap_canvas") auto
  have "cell g (1, 0) = owner (segmentations overlap_canvas) (1, 0)"
    using grid_follows_store[OF b r g(1,2)] by blast
  then show ?thesis
    using b r g by (auto simp: region_over_def region_a_def)
qed

section \<open>The start of a flood fill\<close>

text \<open>
  What \<open>flood_fill_at_position\<close> looks at is the colour of the mask at the seed, and
  nothing else: not the grid of labels, not the dictionary of regions.
\<close>

lemma is_pixel_black_iff:
  "is_pixel_black c x y \<longleftrightarrow>
     (\<exists>img r g b. mask_pixmap c = Some img \<and> inside img (x, y) \<and>
        cell img (x, y) = (r, g, b) \<and> r < 10 \<and> g < 10 \<and> b < 10)"
  by (cases "mask_pixmap c") (auto simp: is_pixel_black_def inside_def split: prod.splits)

lemma fill_performed:
  assumes m: "mask_pixmap c = Some img" and o: "original_pixmap c \<noteq> None"
    and i: "inside img (x, y)" and b: "is_pixel_black c x y"
  shows "\<exists>c' s. flood_fill_at_position e c (Some (x, y)) = Inr c' \<and>
           seg_id s = next_seg_id c \<and> color s = random_color e \<and>
           set (pixels s) = connected_same_value img (x, y) \<and>
           segmentations c' = AList.update (next_seg_id c) s (segmentations c) \<and>
           next_seg_id c' = next_seg_id c + 1 \<and>
           undo_stack c' = Op_segmentation s # undo_stack c"
proof -
  let ?tm = "build_target_mask img (pixelColor img (x, y))"
  let ?ps = "numpy_flood_fill x y ?tm"
  have ps: "set ?ps = connected_same_value img (x, y)"
    using numpy_flood_fill_component[of x y ?tm] component_target_mask[OF i] by simp
  have ne: "?ps \<noteq> []"
    using ps connected_same_value.seed[OF i] by auto
  obtain w h where wh: "original_pixmap c = Some (w, h)" using o by auto
  show ?thesis
    using m wh b ne ps
    by (simp add: flood_fill_at_position_def widget_to_image_coords_def flood_fill_def Let_def
        compute_segmentation_borders_def helper_eqs Segmentation_def)
qed

lemma fill_refused:
  assumes "\<not> (\<exists>x y. pos = Some (x, y) \<and> original_pixmap c \<noteq> None \<and> is_pixel_black c x y)"
  shows "flood_fill_at_position e c pos = Inr c"
  using assms
  by (cases pos) (auto simp: flood_fill_at_position_def widget_to_image_coords_def)

text \<open>
  C4, as amended. \<open>flood_fill_at_position\<close> fills exactly when an image and a mask are
  loaded, the position is over the image, the seed is inside the mask and the colour of the
  mask there is black or nearly so: red, green and blue each below 10. The label of the
  seed in the grid is never read. When it fills, the call returns normally with one new
  region under the key \<open>next_seg_id\<close>, whose pixels are the 4-connected component of the
  seed among the mask pixels of exactly the seed's colour, the seed among them; the counter
  is advanced and the region is pushed on the undo stack. This is so for a seed that is
  already labelled and is a pixel of a stored region as well, whenever the mask is black
  there. In every other case the call returns normally with the canvas exactly as it was:
  no region, no history entry, no change of mask or grid, and no exception.
\<close>

theorem flood_fill_at_position_start_policy:
  "(mask_pixmap c = Some img \<and> original_pixmap c \<noteq> None \<and> pos = Some (x, y) \<and>
    inside img (x, y) \<and> cell img (x, y) = (r, g, b) \<and> r < 10 \<and> g < 10 \<and> b < 10 \<longrightarrow>
      (\<exists>c' s. flood_fill_at_position e c pos = Inr c' \<and>
         seg_id s = next_seg_id c \<and> color s = random_color e \<and>
         set (pixels s) = connected_same_value img (x, y) \<and> (x, y) \<in> set (pixels s) \<and>
         segmentations c' = AList.update (next_seg_id c) s (segmentations c) \<and>
         next_seg_id c' = next_seg_id c + 1 \<and>
         undo_stack c' = Op_segmentation s # undo_stack c)) \<and>
   (\<not> (\<exists>img' x' y' r' g' b'. mask_pixmap c = Some img' \<and> original_pixmap c \<noteq> None \<and>
          pos = Some (x', y') \<and> inside img' (x', y') \<and> cell img' (x', y') = (r', g', b') \<and>
          r' < 10 \<and> g' < 10 \<and> b' < 10) \<longrightarrow>
      flood_fill_at_position e c pos = Inr c)"
proof (intro conjI impI)
  assume h: "mask_pixmap c = Some img \<and> original_pixmap c \<noteq> None \<and> pos = Some (x, y) \<and>
    inside img (x, y) \<and> cell img (x, y) = (r, g, b) \<and> r < 10 \<and> g < 10 \<and> b < 10"
  then have b: "is_pixel_black c x y"
    unfolding is_pixel_black_iff by blast
  have s: "(x, y) \<in> connected_same_value img (x, y)"
    using h by (auto intro: connected_same_value.seed)
  show "\<exists>c' s. flood_fill_at_position e c pos = Inr c' \<and>
         seg_id s = next_seg_id c \<and> color s = random_color e \<and>
         set (pixels s) = connected_same_value img (x, y) \<and> (x, y) \<in> set (pixels s) \<and>
         segmentations c' = AList.update (next_seg_id c) s (segmentations c) \<and>
         next_seg_id c' = next_seg_id c + 1 \<and>
         undo_stack c' = Op_segmentation s # undo_stack c"
    using fill_performed[of c img x y e] h b s by auto
next
  assume n: "\<not> (\<exists>img' x' y' r' g' b'. mask_pixmap c = Some img' \<and> original_pixmap c \<noteq> None \<and>
          pos = Some (x', y') \<and> inside img' (x', y') \<and> cell img' (x', y') = (r', g', b') \<and>
          r' < 10 \<and> g' < 10 \<and> b' < 10)"
  show "flood_fill_at_position e c pos = Inr c"
  proof (rule fill_refused, rule notI)
    assume "\<exists>x y. pos = Some (x, y) \<and> original_pixmap c \<noteq> None \<and> is_pixel_black c x y"
    then show False
      using n unfolding is_pixel_black_iff by blast
  qed
qed

text \<open>
  A labelled seed that is filled. On a blank canvas of two pixels, with a pen of width 1:
  a white dot at \<open>(1, 0)\<close>, a fill at \<open>(0, 0)\<close>, which makes region 1 of the pixel
  \<open>(0, 0)\<close>, and an erasing stroke from \<open>(1, 0)\<close> to \<open>(0, 0)\<close>, which paints both pixels
  black in the mask and leaves the region and the grid alone. The pixel \<open>(0, 0)\<close> is then
  labelled 1 and is a pixel of the stored region 1; a fill at \<open>(0, 0)\<close> is performed all
  the same and makes region 2 of both pixels.
\<close>

definition erase_events :: "event list" where
  "erase_events =
     [Pen_thickness 1, Set_mode Mode_drawing, Mouse_press (Some (1, 0)) False, Mouse_release,
      Set_mode Mode_paint, Mouse_press (Some (0, 0)) False,
      Set_mode Mode_remove, Mouse_press (Some (1, 0)) False, Mouse_move (Some (0, 0)),
      Mouse_release]"

definition erased_canvas :: canvas where
  "erased_canvas = after thin_pen (blank_canvas 2 1) erase_events"

lemma erased_canvas_facts:
  "returns (run thin_pen (blank_canvas 2 1) erase_events)"
  "segmentations erased_canvas = [(1, region_a)]"
  "get_pixel_label erased_canvas 0 0 = 1"
  "next_seg_id erased_canvas = 2"
  "case mask_pixmap erased_canvas of None \<Rightarrow> False
   | Some img \<Rightarrow> inside img (0, 0) \<and> cell img (0, 0) = (0, 0, 0)"
  "original_pixmap erased_canvas = Some (2, 1)"
  "case flood_fill_at_position thin_pen erased_canvas (Some (0, 0)) of Inl _ \<Rightarrow> False
   | Inr c' \<Rightarrow> segmentations c' = [(1, region_a), (2, region_over)] \<and> next_seg_id c' = 3 \<and>
       undo_stack c' = Op_segmentation region_over # undo_stack erased_canvas"
  by code_simp+

theorem flood_fill_labelled_seed_counterexample:
  "run thin_pen (blank_canvas 2 1) erase_events = Inr erased_canvas \<and>
   get_pixel_label erased_canvas 0 0 = 1 \<and>
   get_segmentation_at_pixel erased_canvas 0 0 = Some region_a \<and>
   (0, 0) \<in> set (pixels region_a) \<and>
   (\<exists>c'. flood_fill_at_position thin_pen erased_canvas (Some (0, 0)) = Inr c' \<and>
         c' \<noteq> erased_canvas \<and>
         segmentations c' = [(1, region_a), (2, region_over)] \<and>
         (0, 0) \<in> set (pixels region_over) \<and>
         next_seg_id c' = next_seg_id erased_canvas + 1 \<and>
         undo_stack c' = Op_segmentation region_over # undo_stack erased_canvas)"
proof -
  obtain c' where c': "flood_fill_at_position thin_pen erased_canvas (Some (0, 0)) = Inr c'"
    "segmentations c' = [(1, region_a), (2, region_over)]" "next_seg_id c' = 3"
    "undo_stack c' = Op_segmentation region_over # undo_stack erased_canvas"
    using erased_canvas_facts(7)
    by (cases "flood_fill_at_position thin_pen erased_canvas (Some (0, 0))") auto
  have ne: "c' \<noteq> erased_canvas"
    using c'(3) erased_canvas_facts(4) by auto
  have g: "get_segmentation_at_pixel erased_canvas 0 0 = Some region_a"
    using erased_canvas_facts(2,3) by (simp add: get_segmentation_at_pixel_def)
  show ?thesis
    using run_after[OF erased_canvas_facts(1)] erased_canvas_facts(3,4) g c' ne
    by (simp add: erased_canvas_def region_a_def region_over_def)
qed

text \<open>
  A mask of two pixels as \<open>load_mask\<close> leaves it when the file has the colour
  \<open>(5, 5, 5)\<close> at \<open>(0, 0)\<close> and white at \<open>(1, 0)\<close>: \<open>extract_segmentations_from_mask\<close>
  takes every colour but \<open>(0, 0, 0)\<close> and white for a region, so \<open>(0, 0)\<close> is region 1,
  labelled 1 in the grid. Its colour passes the test of \<open>is_pixel_black\<close>.
\<close>

definition dark_seed_mask :: "colour array2d" where
  "dark_seed_mask = \<lparr>rows = 1, cols = 2, cell = (\<lambda>p. if p = (0, 0) then (5, 5, 5) else white)\<rparr>"

definition dark_region :: segmentation where
  "dark_region = \<lparr>seg_id = 1, color = (5, 5, 5), pixels = [(0, 0)], border_pixels = [(0, 0)]\<rparr>"

definition dark_seed_canvas :: canvas where
  "dark_seed_canvas =
     update_pixel_labels
       ((blank_canvas 2 1)\<lparr>mask_pixmap := Some dark_seed_mask,
                            segmentations := [(1, dark_region)], next_seg_id := 2\<rparr>)"

theorem flood_fill_at_position_start_policy_witness:
  "get_pixel_label erased_canvas 0 0 = 1 \<and>
   (\<exists>img. mask_pixmap erased_canvas = Some img \<and> inside img (0, 0) \<and>
          cell img (0, 0) = (0, 0, 0) \<and>
     (\<exists>c' s. flood_fill_at_position thin_pen erased_canvas (Some (0, 0)) = Inr c' \<and>
         seg_id s = 2 \<and> set (pixels s) = connected_same_value img (0, 0) \<and>
         segmentations c' = [(1, region_a), (2, s)] \<and> next_seg_id c' = 3 \<and>
         undo_stack c' = Op_segmentation s # undo_stack erased_canvas)) \<and>
   get_pixel_label dark_seed_canvas 0 0 = 1 \<and>
   cell dark_seed_mask (0, 0) = (5, 5, 5) \<and>
   (\<exists>c' s. flood_fill_at_position thin_pen dark_seed_canvas (Some (0, 0)) = Inr c' \<and>
         set (pixels s) = connected_same_value dark_seed_mask (0, 0) \<and>
         segmentations c' = [(1, dark_region), (2, s)]) \<and>
   cell dark_seed_mask (1, 0) = white \<and>
   flood_fill_at_position thin_pen dark_seed_canvas (Some (1, 0)) = Inr dark_seed_canvas \<and>
   flood_fill_at_position thin_pen dark_seed_canvas (Some (2, 0)) = Inr dark_seed_canvas \<and>
   flood_fill_at_position thin_pen dark_seed_canvas None = Inr dark_seed_canvas"
proof -
  obtain img where img: "mask_pixmap erased_canvas = Some img" "inside img (0, 0)"
    "cell img (0, 0) = (0, 0, 0)"
    using erased_canvas_facts(5) by (cases "mask_pixmap erased_canvas") auto
  have o: "original_pixmap erased_canvas \<noteq> None"
    using erased_canvas_facts(6) by simp
  have 1: "\<exists>c' s. flood_fill_at_position thin_pen erased_canvas (Some (0, 0)) = Inr c' \<and>
         seg_id s = 2 \<and> set (pixels s) = connected_same_value img (0, 0) \<and>
         segmentations c' = [(1, region_a), (2, s)] \<and> next_seg_id c' = 3 \<and>
         undo_stack c' = Op_segmentation s # undo_stack erased_canvas"
    using flood_fill_at_position_start_policy[of erased_canvas img "Some (0, 0)" 0 0 0 0 0 thin_pen]
      img o erased_canvas_facts(2,4)
    by auto
  have d: "mask_pixmap dark_seed_canvas = Some dark_seed_mask"
    "original_pixmap dark_seed_canvas \<noteq> None" "inside dark_seed_mask (0, 0)"
    "cell dark_seed_mask (0, 0) = (5, 5, 5)" "cell dark_seed_mask (1, 0) = white"
    "segmentations dark_seed_canvas = [(1, dark_region)]" "next_seg_id dark_seed_canvas = 2"
    by (simp_all add: dark_seed_canvas_def dark_seed_mask_def blank_canvas_def inside_def
          helper_eqs)
  have l: "get_pixel_label dark_seed_canvas 0 0 = 1"
    by code_simp
  have 2: "\<exists>c' s. flood_fill_at_position thin_pen dark_seed_canvas (Some (0, 0)) = Inr c' \<and>
         set (pixels s) = connected_same_value dark_seed_mask (0, 0) \<and>
         segmentations c' = [(1, dark_region), (2, s)]"
    using flood_fill_at_position_start_policy[of dark_seed_canvas dark_seed_mask "Some (0, 0)"
        0 0 5 5 5 thin_pen] d
    by auto
  have n: "\<not> (\<exists>img' x' y' r' g' b'. mask_pixmap dark_seed_canvas = Some img' \<and>
          original_pixmap dark_seed_canvas \<noteq> None \<and>
          pos = Some (x', y') \<and> inside img' (x', y') \<and> cell img' (x', y') = (r', g', b') \<and>
          r' < 10 \<and> g' < 10 \<and> b' < 10)"
    if "pos = Some (1, 0) \<or> pos = Some (2, 0) \<or> pos = None" for pos
    using that d(1) by (auto simp: dark_seed_mask_def inside_def white_def)
  have 3: "flood_fill_at_position thin_pen dark_seed_canvas (Some (1, 0)) = Inr dark_seed_canvas"
    using flood_fill_at_position_start_policy[of dark_seed_canvas _ "Some (1, 0)" _ _ _ _ _ thin_pen]
      n[of "Some (1, 0)"] by blast
  have 4: "flood_fill_at_position thin_pen dark_seed_canvas (Some (2, 0)) = Inr dark_seed_canvas"
    using flood_fill_at_position_start_policy[of dark_seed_canvas _ "Some (2, 0)" _ _ _ _ _ thin_pen]
      n[of "Some (2, 0)"] by blast
  have 5: "flood_fill_at_position thin_pen dark_seed_canvas None = Inr dark_seed_canvas"
    using flood_fill_at_position_start_policy[of dark_seed_canvas _ None _ _ _ _ _ thin_pen]
      n[of None] by blast
  show ?thesis
    using erased_canvas_facts(3) img 1 l d(4,5) 2 3 4 5 by blast
qed


section \<open>Undo and redo\<close>

subsection \<open>Dictionaries\<close>










subsection \<open>The fields after an undo and after a redo\<close>







subsection \<open>The grid as it is read\<close>





subsection \<open>A recorded flood fill\<close>

lemma compute_segmentation_borders_keeps:
  "compute_segmentation_borders e c s = Inr s' \<Longrightarrow>
     seg_id s' = seg_id s \<and> pixels s' = pixels s \<and> color s' = color s"
  by (auto simp: compute_segmentation_borders_def split: if_splits option.splits sum.splits)


subsection \<open>A recorded stroke\<close>


lemma press_starts_stroke:
  "mode c = Mode_drawing \<Longrightarrow> mask_pixmap c \<noteq> None \<Longrightarrow>
     mousePressEvent e c p shift = Inr (start_drawing e c p)"
  by (simp add: mousePressEvent_def)





subsection \<open>Regions that share no pixel\<close>

definition store_ok :: "canvas \<Rightarrow> bool" where
  "store_ok c \<longleftrightarrow>
     distinct (map fst (segmentations c)) \<and>
     (\<forall>(k, s)\<in>set (segmentations c). seg_id s = k \<and> k < next_seg_id c)"




lemma present_set:
  "s \<in> set (concat (map (\<lambda>sid. case m sid of None \<Rightarrow> [] | Some s \<Rightarrow> [s]) xs)) \<longleftrightarrow>
     (\<exists>sid\<in>set xs. m sid = Some s)"
  by (induction xs) (auto split: option.splits)

lemma selected_present_set:
  "s \<in> set (selected_present c) \<longleftrightarrow>
     (\<exists>sid\<in>set (selected_segmentations c). map_of (segmentations c) sid = Some s)"
  unfolding selected_present_def by (rule present_set)

subsection \<open>Fill, undo, redo\<close>

lemma store_ok_fresh: "store_ok c \<Longrightarrow> next_seg_id c \<notin> fst ` set (segmentations c)"
  unfolding store_ok_def by fastforce


subsection \<open>Stroke, undo, redo\<close>


subsection \<open>Merge, undo, redo\<close>


subsection \<open>The inverse law\<close>








section \<open>What every run keeps\<close>

text \<open>
  In every canvas a run builds from a blank one, \<open>next_seg_id\<close> is positive, the keys
  of the store do not repeat, each key is the id of its region, positive and below
  \<open>next_seg_id\<close>, no region is without pixels, and the same holds of the regions the two
  history stacks record.
\<close>

fun op_regions :: "operation \<Rightarrow> segmentation list" where
  "op_regions (Op_segmentation s) = [s]"
| "op_regions (Op_drawing d) = []"
| "op_regions (Op_merge olds new) = new # olds"

definition region_ok :: "int \<Rightarrow> segmentation \<Rightarrow> bool" where
  "region_ok n s \<longleftrightarrow> 0 < seg_id s \<and> seg_id s < n \<and> pixels s \<noteq> []"

definition entries_ok ::
  "(int \<times> segmentation) list \<Rightarrow> int \<Rightarrow> operation list \<Rightarrow> operation list \<Rightarrow> bool" where
  "entries_ok segs n us rs \<longleftrightarrow>
     0 < n \<and> distinct (map fst segs) \<and>
     (\<forall>(k, s)\<in>set segs. seg_id s = k \<and> region_ok n s) \<and>
     (\<forall>op\<in>set us \<union> set rs. \<forall>s\<in>set (op_regions op). region_ok n s)"

definition canvas_inv :: "canvas \<Rightarrow> bool" where
  "canvas_inv c \<longleftrightarrow>
     entries_ok (segmentations c) (next_seg_id c) (undo_stack c) (redo_stack c)"

lemma set_update_subset: "set (AList.update k v d) \<subseteq> insert (k, v) (set d)"
  by (induction d) auto

lemma set_delete_subset: "set (AList.delete k d) \<subseteq> set d"
  by (auto simp: AList.delete_eq)

lemma region_ok_mono: "region_ok n s \<Longrightarrow> n \<le> m \<Longrightarrow> region_ok m s"
  by (auto simp: region_ok_def)

lemma entries_ok_delete:
  "entries_ok segs n us rs \<Longrightarrow> entries_ok (AList.delete k segs) n us rs"
  using set_delete_subset[of k segs]
  by (auto simp: entries_ok_def distinct_delete)

lemma entries_ok_update:
  assumes "entries_ok segs n us rs" and "region_ok n s"
  shows "entries_ok (AList.update (seg_id s) s segs) n us rs"
  using assms set_update_subset[of "seg_id s" s segs]
  by (auto simp: entries_ok_def distinct_update)

lemma entries_ok_fold_delete:
  "entries_ok segs n us rs \<Longrightarrow> entries_ok (fold (\<lambda>x d. AList.delete (f x) d) xs segs) n us rs"
  by (induction xs arbitrary: segs) (simp_all add: entries_ok_delete)

lemma entries_ok_fold_update:
  "entries_ok segs n us rs \<Longrightarrow> \<forall>s\<in>set olds. region_ok n s \<Longrightarrow>
     entries_ok (fold (\<lambda>s d. AList.update (seg_id s) s d) olds segs) n us rs"
  by (induction olds arbitrary: segs) (simp_all add: entries_ok_update)

lemma entries_ok_stacks:
  assumes "entries_ok segs n us rs"
    and "\<forall>op\<in>set us' \<union> set rs'. \<forall>s\<in>set (op_regions op). region_ok n s"
  shows "entries_ok segs n us' rs'"
  using assms by (simp add: entries_ok_def)

lemma entries_ok_grow:
  assumes "entries_ok segs n us rs" and "n \<le> m"
  shows "entries_ok segs m us rs"
  using assms region_ok_mono[of n _ m] unfolding entries_ok_def by fastforce

lemma entries_ok_move:
  "entries_ok segs n (op # us) rs \<Longrightarrow> entries_ok segs n us (op # rs)"
  "entries_ok segs n us (op # rs) \<Longrightarrow> entries_ok segs n (op # us) rs"
  "entries_ok segs n (op # us) rs \<Longrightarrow> entries_ok segs n us rs"
  "entries_ok segs n us (op # rs) \<Longrightarrow> entries_ok segs n us rs"
  "entries_ok segs n (op # us) rs \<Longrightarrow> \<forall>s\<in>set (op_regions op). region_ok n s"
  "entries_ok segs n us (op # rs) \<Longrightarrow> \<forall>s\<in>set (op_regions op). region_ok n s"
  by (auto simp: entries_ok_def)

lemma inv_undo: "canvas_inv c \<Longrightarrow> canvas_inv (undo_last_operation e c)"
proof (cases "undo_stack c")
  case Nil
  then show "canvas_inv c \<Longrightarrow> canvas_inv (undo_last_operation e c)"
    by (simp add: undo_last_operation_def)
next
  case (Cons op rest)
  assume inv: "canvas_inv c"
  then have e: "entries_ok (segmentations c) (next_seg_id c) (op # rest) (redo_stack c)"
    by (simp add: canvas_inv_def Cons)
  show "canvas_inv (undo_last_operation e c)"
  proof (cases op)
    case (Op_segmentation s)
    show ?thesis
    proof (cases "segmentations c = []")
      case True
      then show ?thesis
        using entries_ok_move(3)[OF e]
        by (simp add: undo_last_operation_def Cons Op_segmentation helper_eqs canvas_inv_def)
    next
      case False
      obtain v where v: "map_of (segmentations c) (max_key (segmentations c)) = Some v"
        using max_key_lookup[OF False] by blast
      show ?thesis
        using entries_ok_delete[OF entries_ok_move(1)[OF e]] False v
        by (simp add: undo_last_operation_def Cons Op_segmentation helper_eqs Let_def
              canvas_inv_def)
    qed
  next
    case (Op_drawing d)
    show ?thesis
    proof (cases "drawings c = []")
      case True
      then show ?thesis
        using entries_ok_move(3)[OF e]
        by (simp add: undo_last_operation_def Cons Op_drawing helper_eqs canvas_inv_def)
    next
      case False
      obtain v where v: "map_of (drawings c) (max_key (drawings c)) = Some v"
        using max_key_lookup[OF False] by blast
      show ?thesis
        using entries_ok_move(1)[OF e] False v
        by (simp add: undo_last_operation_def Cons Op_drawing helper_eqs Let_def canvas_inv_def)
    qed
  next
    case (Op_merge olds new)
    have r: "\<forall>s\<in>set olds. region_ok (next_seg_id c) s"
      using entries_ok_move(5)[OF e] by (simp add: Op_merge)
    show ?thesis
      using entries_ok_fold_update[OF entries_ok_delete[OF entries_ok_move(1)[OF e]] r]
      by (simp add: undo_last_operation_def Cons Op_merge helper_eqs Let_def canvas_inv_def)
  qed
qed

lemma inv_redo: "canvas_inv c \<Longrightarrow> canvas_inv (redo_last_operation e c)"
proof (cases "redo_stack c")
  case Nil
  then show "canvas_inv c \<Longrightarrow> canvas_inv (redo_last_operation e c)"
    by (simp add: redo_last_operation_def)
next
  case (Cons op rest)
  assume inv: "canvas_inv c"
  then have e: "entries_ok (segmentations c) (next_seg_id c) (undo_stack c) (op # rest)"
    by (simp add: canvas_inv_def Cons)
  show "canvas_inv (redo_last_operation e c)"
  proof (cases op)
    case (Op_segmentation s)
    have r: "region_ok (next_seg_id c) s"
      using entries_ok_move(6)[OF e] by (simp add: Op_segmentation)
    show ?thesis
      using entries_ok_update[OF entries_ok_move(2)[OF e] r]
      by (simp add: redo_last_operation_def Cons Op_segmentation helper_eqs Let_def canvas_inv_def)
  next
    case (Op_drawing d)
    show ?thesis
      using entries_ok_move(2)[OF e]
      by (simp add: redo_last_operation_def Cons Op_drawing helper_eqs Let_def canvas_inv_def)
  next
    case (Op_merge olds new)
    have r: "region_ok (next_seg_id c) new"
      using entries_ok_move(6)[OF e] by (simp add: Op_merge)
    show ?thesis
      using entries_ok_update[OF entries_ok_fold_delete[OF entries_ok_move(2)[OF e]] r]
      by (simp add: redo_last_operation_def Cons Op_merge helper_eqs Let_def canvas_inv_def)
  qed
qed

lemma inv_remove_at: "canvas_inv c \<Longrightarrow> canvas_inv (remove_at c s)"
proof -
  assume "canvas_inv c"
  then have "entries_ok (AList.delete (seg_id s) (segmentations c)) (next_seg_id c) [] []"
    using entries_ok_stacks[OF entries_ok_delete, of "segmentations c" "next_seg_id c"
        "undo_stack c" "redo_stack c" "[]" "[]" "seg_id s"]
    by (simp add: canvas_inv_def)
  then show ?thesis
    using \<open>canvas_inv c\<close>
    by (simp add: remove_at_def remove_segmentation_def helper_eqs canvas_inv_def
          split: option.splits)
qed

lemma inv_same:
  assumes "canvas_inv c" and "segmentations c' = segmentations c"
    and "next_seg_id c' = next_seg_id c" and "undo_stack c' = undo_stack c"
    and "redo_stack c' = redo_stack c"
  shows "canvas_inv c'"
  using assms by (simp add: canvas_inv_def)

lemma inv_merge: "canvas_inv c \<Longrightarrow> canvas_inv (merge_selected_segmentations e c)"
proof (cases "2 \<le> length (selected_segmentations c) \<and> concat (map pixels (selected_present c)) \<noteq> []")
  case False
  then have "merge_selected_segmentations e c = c"
    using merge_refused[of c e] merge_empty[of c e] by auto
  then show "canvas_inv c \<Longrightarrow> canvas_inv (merge_selected_segmentations e c)" by simp
next
  case True
  assume inv: "canvas_inv c"
  let ?n = "next_seg_id c" and ?M = "merged_region e c"
  note mp = merge_performed[OF conjunct1[OF True] conjunct2[OF True], of e]
  have e: "entries_ok (segmentations c) ?n (undo_stack c) (redo_stack c)"
    using inv by (simp add: canvas_inv_def)
  have pos: "0 < ?n"
  proof -
    have "selected_present c \<noteq> []" using True by auto
    then obtain s where "s \<in> set (selected_present c)"
      by (cases "selected_present c") auto
    then obtain sid where "map_of (segmentations c) sid = Some s"
      by (auto simp: selected_present_set)
    then have "(sid, s) \<in> set (segmentations c)" by (auto dest: map_of_SomeD)
    then show ?thesis using e by (auto simp: entries_ok_def region_ok_def)
  qed
  have M: "region_ok (?n + 1) ?M" "seg_id ?M = ?n"
    using True pos by (simp_all add: region_ok_def merged_region_def)
  have olds: "\<forall>s\<in>set (selected_present c). region_ok (?n + 1) s"
  proof
    fix s assume "s \<in> set (selected_present c)"
    then obtain sid where "map_of (segmentations c) sid = Some s"
      by (auto simp: selected_present_set)
    then have "(sid, s) \<in> set (segmentations c)" by (auto dest: map_of_SomeD)
    then show "region_ok (?n + 1) s"
      using e region_ok_mono[of ?n s "?n + 1"] by (auto simp: entries_ok_def)
  qed
  have g: "entries_ok (fold AList.delete (selected_segmentations c) (segmentations c)) (?n + 1)
      (undo_stack c) (redo_stack c)"
    using entries_ok_fold_delete[OF entries_ok_grow[OF e], of "?n + 1" "\<lambda>k. k"] by simp
  have "entries_ok (AList.update ?n ?M
          (fold AList.delete (selected_segmentations c) (segmentations c))) (?n + 1)
      (Op_merge (selected_present c) ?M # undo_stack c) []"
    using entries_ok_update[OF g M(1)] M olds
    by (auto simp: entries_ok_def)
  then show "canvas_inv (merge_selected_segmentations e c)"
    by (simp add: canvas_inv_def mp)
qed


lemma inv_fill:
  assumes "canvas_inv c" and "flood_fill_at_position e c pos = Inr c1"
  shows "canvas_inv c1"
proof (cases "undo_stack c1 = undo_stack c \<and> segmentations c1 = segmentations c \<and>
    next_seg_id c1 = next_seg_id c \<and> redo_stack c1 = redo_stack c")
  case True
  then show ?thesis using assms(1) by (simp add: canvas_inv_def)
next
  case False
  let ?n = "next_seg_id c"
  have "\<exists>s. seg_id s = ?n \<and> pixels s \<noteq> [] \<and>
      segmentations c1 = AList.update ?n s (segmentations c) \<and>
      undo_stack c1 = Op_segmentation s # undo_stack c \<and> redo_stack c1 = [] \<and>
      next_seg_id c1 = ?n + 1"
    using assms(2) False
    by (auto simp: flood_fill_at_position_def case_prod_beta flood_fill_eq Let_def helper_eqs
          Segmentation_def
          dest!: compute_segmentation_borders_keeps
          split: option.splits if_splits sum.splits)
  then obtain s where s: "seg_id s = ?n" "pixels s \<noteq> []"
    "segmentations c1 = AList.update ?n s (segmentations c)"
    "undo_stack c1 = Op_segmentation s # undo_stack c" "redo_stack c1 = []"
    "next_seg_id c1 = ?n + 1"
    by blast
  have e: "entries_ok (segmentations c) (?n + 1) (undo_stack c) (redo_stack c)"
    using assms(1) entries_ok_grow[of "segmentations c" ?n _ _ "?n + 1"]
    by (simp add: canvas_inv_def)
  have pos: "0 < ?n"
    using assms(1) by (simp add: canvas_inv_def entries_ok_def)
  have ok: "region_ok (?n + 1) s"
    using s(1,2) pos by (simp add: region_ok_def)
  have "entries_ok (AList.update ?n s (segmentations c)) (?n + 1)
      (Op_segmentation s # undo_stack c) []"
    using entries_ok_update[OF e ok] ok s(1) by (auto simp: entries_ok_def)
  then show ?thesis
    by (simp add: canvas_inv_def s)
qed

lemma inv_release: "canvas_inv c \<Longrightarrow> canvas_inv (mouseReleaseEvent c)"
  by (auto simp: mouseReleaseEvent_def Let_def push_to_undo_stack_def canvas_inv_def
        entries_ok_def split: option.splits)

lemma inv_move: "canvas_inv c \<Longrightarrow> canvas_inv (mouseMoveEvent e c pos)"
  using inv_remove_at[of c]
  by (auto simp: mouseMoveEvent_def draw_line_def canvas_inv_def
        split: option.splits prod.splits)

lemma inv_start_drawing: "canvas_inv c \<Longrightarrow> canvas_inv (start_drawing e c pos)"
  by (simp add: start_drawing_def helper_eqs canvas_inv_def)

lemma inv_press:
  "canvas_inv c \<Longrightarrow> mousePressEvent e c pos shift = Inr c' \<Longrightarrow> canvas_inv c'"
  using inv_fill[of c e pos c'] inv_start_drawing[of c e pos] inv_remove_at[of c]
  by (auto simp: mousePressEvent_def select_region_at_position_def canvas_inv_def
        split: if_splits option.splits prod.splits)

lemma inv_step: "canvas_inv c \<Longrightarrow> step e c ev = Inr c' \<Longrightarrow> canvas_inv c'"
  using inv_press inv_move inv_release inv_merge inv_undo inv_redo
  by (cases ev)
     (auto simp: set_mode_def clear_selection_def toggle_segmentation_selection_def
        canvas_inv_def Let_def)

lemma inv_run: "canvas_inv c \<Longrightarrow> run e c evs = Inr c' \<Longrightarrow> canvas_inv c'"
proof (induction evs arbitrary: c)
  case Nil
  then show ?case by simp
next
  case (Cons ev evs)
  then obtain c1 where c1: "step e c ev = Inr c1" "run e c1 evs = Inr c'"
    by (auto split: sum.splits)
  show ?case
    using Cons.IH[OF inv_step[OF Cons.prems(1) c1(1)] c1(2)] .
qed

lemma inv_blank: "canvas_inv (blank_canvas w h)"
  by (simp add: canvas_inv_def entries_ok_def blank_canvas_def)

text \<open>
  So the hypotheses of the theorems on merge and on undo hold in every canvas a run builds
  from a blank one.
\<close>

lemma reachable_store:
  assumes "run e (blank_canvas w h) evs = Inr c"
  shows "store_ok c"
    and "next_seg_id c \<notin> fst ` set (segmentations c)"
    and "\<forall>(k, s)\<in>set (segmentations c). 0 < k \<and> pixels s \<noteq> []"
proof -
  have i: "canvas_inv c" using inv_run[OF inv_blank assms] .
  show ok: "store_ok c"
    using i unfolding canvas_inv_def entries_ok_def store_ok_def region_ok_def by fastforce
  show "next_seg_id c \<notin> fst ` set (segmentations c)"
    using store_ok_fresh[OF ok] .
  show "\<forall>(k, s)\<in>set (segmentations c). 0 < k \<and> pixels s \<noteq> []"
    using i unfolding canvas_inv_def entries_ok_def region_ok_def by fastforce
qed

end
